theory Spec2Isabelle
  imports Main
begin

section \<open>Data model\<close>

text \<open>
  Errors are values.  \<open>StatError\<close> is what file-js raises when it cannot stat a path
  (a path that does not exist); \<open>ListingError\<close> is whatever its directory-listing
  primitive raises (unreadable, not a directory); \<open>TypeError\<close> is the JavaScript
  runtime error (calling a method a value does not have, reducing an empty array
  without an initial value).
\<close>

datatype error = StatError string | ListingError string | TypeError string

text \<open>
  A \<open>File\<close> of file-js for a path that exists, as far as \<open>filehound.ts\<close> reads it:
  its name (the path), its depth, whether it is a directory, whether it is hidden, its
  path extension, and what listing it yields (the entries, or the error the listing
  raises).  \<open>getFiles\<close> and \<open>getFilesSync\<close> read the same listing.  The depth is
  what file-js computes: for a directory the number of separators in its path, for
  any other entry the depth of the directory that holds it.  The entries of a listing
  are taken to exist: their attributes can be read.
\<close>

datatype fileobj =
  File (getName: string) (getDepthSync: int) (isDirectorySync: bool) (isHiddenSync: bool)
       (getPathExtension: string) (getFilesSync: "error + fileobj list")

text \<open>The fields of a \<open>FileHound\<close> instance; \<open>maxDepth\<close> is \<open>None\<close> while undefined.\<close>

record filehound =
  filters :: "(fileobj \<Rightarrow> bool) list"
  searchPaths :: "string list"
  ignoreDirs :: bool
  isMatch :: "fileobj \<Rightarrow> bool"
  sync :: bool
  directoriesOnly :: bool
  negateFilters :: bool
  maxDepth :: "int option"

text \<open>
  The constructor.  \<open>isMatch\<close> starts as lodash's \<open>noop\<close>, whose result is falsy;
  \<open>negateFilters\<close> and \<open>maxDepth\<close> are left undefined.
\<close>

definition create :: "string \<Rightarrow> filehound" where
  "create cwd =
     \<lparr> filters = [], searchPaths = [cwd], ignoreDirs = False, isMatch = (\<lambda>_. False),
       sync = False, directoriesOnly = False, negateFilters = False, maxDepth = None \<rparr>"

definition isDefined :: "'a option \<Rightarrow> bool" where
  "isDefined v = (v \<noteq> None)"

definition flatten :: "'a list \<Rightarrow> 'a list \<Rightarrow> 'a list" where
  "flatten a b = a @ b"

definition toFilename :: "fileobj \<Rightarrow> string" where
  "toFilename f = getName f"

section \<open>Predicate composition\<close>

text \<open>
  Modelled from the spec: \<open>compose\<close> and \<open>negate\<close> of \<open>./functions\<close>, which is not
  among the sources.  The spec: evaluating the set "computes AND of all predicates (empty
  set => true)", "ANDing all predicates in insertion order", "then negates if negateAll".
\<close>

definition compose :: "('a \<Rightarrow> bool) list \<Rightarrow> 'a \<Rightarrow> bool" where
  "compose fs x = foldl (\<lambda>acc f. acc \<and> f x) True fs"

definition negate :: "('a \<Rightarrow> bool) \<Rightarrow> 'a \<Rightarrow> bool" where
  "negate f x = (\<not> f x)"

definition addFilter :: "(fileobj \<Rightarrow> bool) \<Rightarrow> filehound \<Rightarrow> filehound" where
  "addFilter f this = this\<lparr>filters := filters this @ [f]\<rparr>"

definition not :: "filehound \<Rightarrow> filehound" where
  "not this = this\<lparr>negateFilters := True\<rparr>"

definition newMatcher :: "filehound \<Rightarrow> fileobj \<Rightarrow> bool" where
  "newMatcher this =
     (let isMatch = compose (filters this)
      in if negateFilters this then negate isMatch else isMatch)"

definition initFilters :: "filehound \<Rightarrow> filehound" where
  "initFilters this = this\<lparr>isMatch := newMatcher this\<rparr>"

section \<open>Builder methods\<close>

text \<open>One variadic argument: a value, or an array of values.\<close>

datatype 'a arg = Single 'a | Nested "'a list"

text \<open>
  Modelled from the spec: \<open>from\<close> of \<open>./arrays\<close>, which is not among the sources (the
  name \<open>from\<close> is a keyword here, hence \<open>from_args\<close>).  The spec: "given a
  variadic/nested list of path strings, flattens it".
\<close>

definition from_args :: "'a arg list \<Rightarrow> 'a list" where
  "from_args args = concat (map (\<lambda>a. case a of Single x \<Rightarrow> [x] | Nested xs \<Rightarrow> xs) args)"

text \<open>
  lodash's \<open>uniq\<close>: the elements in order, each kept at its first occurrence only.
\<close>

definition uniq_step :: "'a list \<Rightarrow> 'a \<Rightarrow> 'a list" where
  "uniq_step seen x = (if x \<in> set seen then seen else seen @ [x])"

definition uniq :: "'a list \<Rightarrow> 'a list" where
  "uniq xs = foldl uniq_step [] xs"

text \<open>
  \<open>paths\<close> removes duplicates first and normalizes after.  \<open>path.normalize\<close> belongs to
  the platform (it differs between POSIX and Windows), so it is a parameter.
\<close>

definition paths :: "(string \<Rightarrow> string) \<Rightarrow> string arg list \<Rightarrow> filehound \<Rightarrow> filehound" where
  "paths normalizePath args this =
     this\<lparr>searchPaths := map normalizePath (uniq (from_args args))\<rparr>"

definition path :: "(string \<Rightarrow> string) \<Rightarrow> string \<Rightarrow> filehound \<Rightarrow> filehound" where
  "path normalizePath p this = paths normalizePath [Single p] this"

text \<open>
  Node's \<open>path.posix.normalize\<close>, for concrete runs: segments are split at \<open>/\<close>, empty
  and \<open>.\<close> segments are dropped, \<open>..\<close> removes the segment before it (and is kept only
  in a relative path that has nothing left to remove), a trailing separator is kept.
\<close>

fun split_sep :: "string \<Rightarrow> string \<Rightarrow> string list" where
  "split_sep cur [] = [cur]"
| "split_sep cur (c # cs) =
     (if c = CHR ''/'' then cur # split_sep [] cs else split_sep (cur @ [c]) cs)"

fun normalizeString :: "bool \<Rightarrow> string list \<Rightarrow> string list \<Rightarrow> string list" where
  "normalizeString allowAboveRoot res [] = res"
| "normalizeString allowAboveRoot res (seg # segs) =
     normalizeString allowAboveRoot
       (if seg = [] \<or> seg = ''.'' then res
        else if seg = ''..'' then
          (if res \<noteq> [] \<and> last res \<noteq> ''..'' then butlast res
           else if allowAboveRoot then res @ [''..''] else res)
        else res @ [seg])
       segs"

fun join_sep :: "string list \<Rightarrow> string" where
  "join_sep [] = []"
| "join_sep [s] = s"
| "join_sep (s # t # ts) = s @ ''/'' @ join_sep (t # ts)"

definition normalize_posix :: "string \<Rightarrow> string" where
  "normalize_posix p =
     (if p = [] then ''.''
      else
        let isAbsolute = (hd p = CHR ''/'');
            trailingSeparator = (last p = CHR ''/'');
            q = join_sep (normalizeString (\<not> isAbsolute) [] (split_sep [] p))
        in if q = [] then (if isAbsolute then ''/'' else if trailingSeparator then ''./'' else ''.'')
           else (if isAbsolute then ''/'' else []) @ q @ (if trailingSeparator then ''/'' else []))"

definition cleanExtension :: "string \<Rightarrow> string" where
  "cleanExtension ext = (case ext of c # rest \<Rightarrow> if c = CHR ''.'' then rest else ext | [] \<Rightarrow> ext)"

definition ext :: "string arg list \<Rightarrow> filehound \<Rightarrow> filehound" where
  "ext args this =
     (let extensions = map cleanExtension (from_args args)
      in addFilter (\<lambda>file. getPathExtension file \<in> set extensions) this)"

definition ignoreHiddenFiles :: "filehound \<Rightarrow> filehound" where
  "ignoreHiddenFiles this = addFilter (\<lambda>file. \<not> isHiddenSync file) this"

definition ignoreHiddenDirectories :: "filehound \<Rightarrow> filehound" where
  "ignoreHiddenDirectories this = this\<lparr>ignoreDirs := True\<rparr>"

definition directory :: "filehound \<Rightarrow> filehound" where
  "directory this = this\<lparr>directoriesOnly := True\<rparr>"

definition depth :: "int \<Rightarrow> filehound \<Rightarrow> filehound" where
  "depth d this = this\<lparr>maxDepth := Some d\<rparr>"

section \<open>Directory pruning\<close>

definition atMaxDepth :: "filehound \<Rightarrow> fileobj \<Rightarrow> fileobj \<Rightarrow> bool" where
  "atMaxDepth this root dir =
     (let depth = getDepthSync dir - getDepthSync root
      in isDefined (maxDepth this) \<and> (case maxDepth this of Some m \<Rightarrow> depth > m | None \<Rightarrow> False))"

definition shouldFilterDirectory :: "filehound \<Rightarrow> fileobj \<Rightarrow> fileobj \<Rightarrow> bool" where
  "shouldFilterDirectory this root dir =
     (atMaxDepth this root dir \<or> (ignoreDirs this \<and> isHiddenSync dir))"

section \<open>The walk\<close>

text \<open>
  What one walk does besides returning: it pushes directories on \<open>trackedPaths\<close>, it
  lists directories (\<open>listed\<close> records each call, with the primitive \<open>search\<close> chose) and
  it applies \<open>isMatch\<close> to entries (\<open>evaluated\<close> records each entry, in order).
\<close>

datatype listing = GetFilesSync fileobj | GetFiles fileobj

fun listedDir :: "listing \<Rightarrow> fileobj" where
  "listedDir (GetFilesSync d) = d"
| "listedDir (GetFiles d) = d"

fun isSyncListing :: "listing \<Rightarrow> bool" where
  "isSyncListing (GetFilesSync d) = True"
| "isSyncListing (GetFiles d) = False"

record walk =
  trackedPaths :: "fileobj list"
  listed :: "listing list"
  evaluated :: "fileobj list"

definition getFiles :: "filehound \<Rightarrow> fileobj \<Rightarrow> listing" where
  "getFiles this dir = (if sync this then GetFilesSync dir else GetFiles dir)"

text \<open>
  \<open>search\<close>, each listing completing before the next entry is mapped; this is how it
  runs on arrays, that is with \<open>getFilesSync\<close>.  \<open>search_map\<close> is the \<open>.map\<close> over
  the listing, one child after the other (a file stands for the array that \<open>concat\<close>
  makes of it), then come \<open>.reduce(flatten, [])\<close> and \<open>.filter(this.isMatch)\<close>.  A
  listing that raises ends the walk with that error.  With \<open>getFiles\<close> the calls are
  the same but interleave in the order the listings complete; see \<open>walks\<close> below.
\<close>

lemma size_listing_less:
  "getFilesSync dir = Inr files \<Longrightarrow> size_list size files < size dir"
  by (cases dir) simp

function search :: "filehound \<Rightarrow> fileobj \<Rightarrow> fileobj \<Rightarrow> walk \<Rightarrow> (error + fileobj list) \<times> walk"
  and search_map ::
    "filehound \<Rightarrow> fileobj \<Rightarrow> fileobj list \<Rightarrow> walk \<Rightarrow> (error + fileobj list list) \<times> walk"
where
  "search this root dir w =
     (if shouldFilterDirectory this root dir then (Inr [], w)
      else
        let w0 = w\<lparr>listed := listed w @ [getFiles this dir]\<rparr> in
        case getFilesSync dir of
          Inl e \<Rightarrow> (Inl e, w0)
        | Inr files \<Rightarrow>
            (case search_map this root files w0 of
               (Inl e, w1) \<Rightarrow> (Inl e, w1)
             | (Inr mapped, w1) \<Rightarrow>
                 let flat = foldl flatten [] mapped
                 in (Inr (filter (isMatch this) flat), w1\<lparr>evaluated := evaluated w1 @ flat\<rparr>)))"
| "search_map this root [] w = (Inr [], w)"
| "search_map this root (file # rest) w =
     (if isDirectorySync file then
        let w0 = (if \<not> shouldFilterDirectory this root file
                  then w\<lparr>trackedPaths := trackedPaths w @ [file]\<rparr> else w) in
        case search this root file w0 of
          (Inl e, w1) \<Rightarrow> (Inl e, w1)
        | (Inr found, w1) \<Rightarrow>
            (case search_map this root rest w1 of
               (Inl e, w2) \<Rightarrow> (Inl e, w2)
             | (Inr mapped, w2) \<Rightarrow> (Inr (found # mapped), w2))
      else
        case search_map this root rest w of
          (Inl e, w2) \<Rightarrow> (Inl e, w2)
        | (Inr mapped, w2) \<Rightarrow> (Inr ([file] # mapped), w2))"
  by pat_completeness auto

termination
  by (relation "measure (\<lambda>x. case x of Inl (_, _, dir, _) \<Rightarrow> size dir
                                    | Inr (_, _, files, _) \<Rightarrow> size_list size files)")
     (auto simp: size_listing_less)

declare search.simps [simp del]

text \<open>
  The entries that a list of listing calls yields, and the directories a walk over
  \<open>files\<close> is to accumulate, stated apart from \<open>search\<close>: each directory entry that
  is not pruned, then what its own listing accumulates, in listing order.
\<close>

definition entriesOf :: "listing list \<Rightarrow> fileobj set" where
  "entriesOf ls = (\<Union>l\<in>set ls. case getFilesSync (listedDir l) of Inr cs \<Rightarrow> set cs | Inl e \<Rightarrow> {})"

function visited :: "(fileobj \<Rightarrow> bool) \<Rightarrow> fileobj list \<Rightarrow> fileobj list" where
  "visited pruned [] = []"
| "visited pruned (f # rest) =
     (if isDirectorySync f \<and> \<not> pruned f
      then f # (case getFilesSync f of Inr files \<Rightarrow> visited pruned files | Inl e \<Rightarrow> [])
      else [])
     @ visited pruned rest"
  by pat_completeness auto
termination
  by (relation "measure (\<lambda>(pruned, files). size_list size files)")
     (auto dest: size_listing_less)

text \<open>
  What a walk may add to its state, for the proofs: \<open>w'\<close> extends \<open>w\<close> by tracked
  directories that are not pruned, by listings of directories that are not pruned, and
  by evaluated entries; tracked, evaluated and returned entries (\<open>out\<close>) are in hand
  already (\<open>base\<close>) or come from one of the new listings.
\<close>

definition grows ::
  "filehound \<Rightarrow> fileobj \<Rightarrow> fileobj set \<Rightarrow> walk \<Rightarrow> walk \<Rightarrow> fileobj set \<Rightarrow> bool" where
  "grows this root base w w' out =
     (\<exists>T L E. trackedPaths w' = trackedPaths w @ T \<and> listed w' = listed w @ L
        \<and> evaluated w' = evaluated w @ E
        \<and> (\<forall>t\<in>set T. isDirectorySync t \<and> \<not> shouldFilterDirectory this root t
                       \<and> t \<in> base \<union> entriesOf L)
        \<and> (\<forall>l\<in>set L. \<not> shouldFilterDirectory this root (listedDir l)
                       \<and> l = getFiles this (listedDir l))
        \<and> set E \<subseteq> base \<union> entriesOf L
        \<and> out \<subseteq> base \<union> entriesOf L)"

section \<open>Synchronous search\<close>

text \<open>
  Modelled from the spec: \<open>copy\<close> of \<open>./arrays\<close>, which is not among the sources.  The
  spec has one walk per root path of the list, in its order, so the copy holds the same
  strings in the same order.
\<close>

definition copy :: "'a list \<Rightarrow> 'a list" where
  "copy xs = xs"

text \<open>
  \<open>reducePaths\<close> of \<open>./files\<close> is not among the sources either, and the spec does not
  describe it: it is a parameter.
\<close>

definition getSearchPaths :: "(string list \<Rightarrow> string list) \<Rightarrow> filehound \<Rightarrow> string list" where
  "getSearchPaths reducePaths this =
     (let paths = (if isDefined (maxDepth this) then searchPaths this
                   else reducePaths (searchPaths this))
      in copy paths)"

text \<open>
  \<open>File.create\<close> of file-js makes the entry of a path without reading the file
  system.  The first thing \<open>search\<close> does with the root is \<open>getDepthSync\<close> (in
  \<open>atMaxDepth\<close>, before any listing), which stats the path and raises when the path
  does not exist.  The file system is the parameter \<open>fs\<close>: \<open>fs dir\<close> is the entry
  of the path \<open>dir\<close>, or the error that this first stat raises.
\<close>

definition searchSync ::
  "(string \<Rightarrow> error + fileobj) \<Rightarrow> string \<Rightarrow> filehound \<times> walk
     \<Rightarrow> (error + fileobj list) \<times> filehound \<times> walk"
where
  "searchSync fs dir s =
     (let this = (fst s)\<lparr>sync := True\<rparr> in
      case fs dir of
        Inl e \<Rightarrow> (Inl e, this, (snd s)\<lparr>trackedPaths := []\<rparr>)
      | Inr root \<Rightarrow>
          let (files, w) = search this root root ((snd s)\<lparr>trackedPaths := []\<rparr>)
          in case files of
               Inl e \<Rightarrow> (Inl e, this, w)
             | Inr found \<Rightarrow>
                 if directoriesOnly this
                 then (Inr (filter (isMatch this) (trackedPaths w)), this,
                       w\<lparr>evaluated := evaluated w @ trackedPaths w\<rparr>)
                 else (Inr found, this, w))"

text \<open>\<open>.map(this.searchSync)\<close>: root after root; the first root that raises ends it.\<close>

fun map_searchSync ::
  "(string \<Rightarrow> error + fileobj) \<Rightarrow> string list \<Rightarrow> filehound \<times> walk
     \<Rightarrow> (error + fileobj list list) \<times> filehound \<times> walk"
where
  "map_searchSync fs [] s = (Inr [], s)"
| "map_searchSync fs (dir # dirs) s =
     (case searchSync fs dir s of
        (Inl e, s1) \<Rightarrow> (Inl e, s1)
      | (Inr found, s1) \<Rightarrow>
          (case map_searchSync fs dirs s1 of
             (Inl e, s2) \<Rightarrow> (Inl e, s2)
           | (Inr founds, s2) \<Rightarrow> (Inr (found # founds), s2)))"

text \<open>
  \<open>.reduce(flatten)\<close> has no initial value: on an empty array \<open>Array.prototype.reduce\<close>
  raises a TypeError; bluebird's \<open>reduce\<close> yields \<open>undefined\<close>, on which the \<open>.map\<close>
  that follows rejects with a TypeError.
\<close>

definition reduce_flatten :: "'a list list \<Rightarrow> error + 'a list" where
  "reduce_flatten xss =
     (case xss of
        [] \<Rightarrow> Inl (TypeError ''reduce of an empty array with no initial value'')
      | xs # rest \<Rightarrow> Inr (foldl flatten xs rest))"

definition findSync ::
  "(string list \<Rightarrow> string list) \<Rightarrow> (string \<Rightarrow> error + fileobj) \<Rightarrow> filehound \<times> walk
     \<Rightarrow> (error + string list) \<times> filehound \<times> walk"
where
  "findSync reducePaths fs s =
     (let this = initFilters (fst s) in
      case map_searchSync fs (getSearchPaths reducePaths this) (this, snd s) of
        (Inl e, s1) \<Rightarrow> (Inl e, s1)
      | (Inr founds, s1) \<Rightarrow>
          (case reduce_flatten founds of
             Inl e \<Rightarrow> (Inl e, s1)
           | Inr files \<Rightarrow> (Inr (map toFilename files), s1)))"

section \<open>Asynchronous search\<close>

text \<open>
  The notifications of the event emitter.
\<close>

datatype event = Match string | Error error | End

text \<open>
  When \<open>search\<close> runs with \<open>getFiles\<close>, its result is a bluebird promise whose
  outcome depends on the order in which the listings complete (the order of
  \<open>trackedPaths\<close>, and which of several failing listings is reported).  That outcome is
  an input: \<open>walks dir\<close> is what the promise of the walk of root \<open>dir\<close> settles with,
  the error, or the files found and the final \<open>trackedPaths\<close>.
\<close>

type_synonym walks = "string \<Rightarrow> error + fileobj list \<times> fileobj list"

text \<open>
  What a call of \<open>searchAsync\<close> comes to: it raises at once, or it returns a promise
  that settles later, with its outcome and the notifications emitted at that moment.
\<close>

datatype pending = Throws error | Settles "error + fileobj list" "event list"

text \<open>
  \<open>searchAsync\<close>.  When the root cannot be stat'ed, \<open>search\<close> raises at once.
  When the root is pruned, or when the \<open>sync\<close> flag is set, \<open>search\<close> runs on
  arrays and returns one (unless a listing raises); an array has no \<open>then\<close>, so
  \<open>pending.then\<close> raises a TypeError.  Otherwise the continuation runs
  when the walk resolves: in directories-only mode it returns the filtered
  \<open>trackedPaths\<close> at once, else it emits one \<open>match\<close> for each file and returns the
  files.
\<close>

definition searchAsync ::
  "walks \<Rightarrow> (string \<Rightarrow> error + fileobj) \<Rightarrow> string \<Rightarrow> filehound \<Rightarrow> walk \<Rightarrow> pending \<times> walk"
where
  "searchAsync walks fs dir this w =
     (case fs dir of
        Inl e \<Rightarrow> (Throws e, w)
      | Inr root \<Rightarrow>
          if sync this \<or> shouldFilterDirectory this root root then
            (case search this root root (w\<lparr>trackedPaths := []\<rparr>) of
               (Inl e, w1) \<Rightarrow> (Throws e, w1)
             | (Inr found, w1) \<Rightarrow> (Throws (TypeError ''pending.then is not a function''), w1))
          else
            (case walks dir of
               Inl e \<Rightarrow> (Settles (Inl e) [], w)
             | Inr (files, tracked) \<Rightarrow>
                 if directoriesOnly this
                 then (Settles (Inr (filter (isMatch this) tracked)) [], w)
                 else (Settles (Inr files) (map (\<lambda>file. Match (getName file)) files), w)))"

text \<open>
  \<open>Promise.map(paths, this.searchAsync)\<close> calls the mapper on the paths in order, in
  one go; a mapper that raises rejects the whole and the paths after it are not
  started.
\<close>

fun start_searches ::
  "walks \<Rightarrow> (string \<Rightarrow> error + fileobj) \<Rightarrow> filehound \<Rightarrow> string list \<Rightarrow> walk \<Rightarrow> pending list \<times> walk"
where
  "start_searches walks fs this [] w = ([], w)"
| "start_searches walks fs this (dir # dirs) w =
     (case searchAsync walks fs dir this w of
        (Throws e, w1) \<Rightarrow> ([Throws e], w1)
      | (Settles r evs, w1) \<Rightarrow>
          (case start_searches walks fs this dirs w1 of (ps, w2) \<Rightarrow> (Settles r evs # ps, w2)))"

fun thrown :: "pending list \<Rightarrow> error option" where
  "thrown [] = None"
| "thrown (Throws e # ps) = Some e"
| "thrown (Settles r evs # ps) = thrown ps"

text \<open>
  The started walks settle in the order \<open>order\<close> (indices into the list of roots).  A
  walk that resolves emits its notifications, whether or not \<open>find\<close> has been rejected
  by then: bluebird does not cancel the other walks.  The first walk that rejects
  rejects \<open>Promise.all\<close>; \<open>reduce\<close> and \<open>map\<close> are skipped, \<open>catch\<close> emits \<open>error\<close>
  and rethrows, \<open>finally\<close> emits \<open>end\<close>.  Later rejections change nothing.
\<close>

fun settle ::
  "pending list \<Rightarrow> nat list \<Rightarrow> error option \<times> event list \<Rightarrow> error option \<times> event list"
where
  "settle ps [] acc = acc"
| "settle ps (i # order) (rejected, evs) =
     (if i < length ps then
        (case ps ! i of
           Settles (Inr files) emitted \<Rightarrow> settle ps order (rejected, evs @ emitted)
         | Settles (Inl e) emitted \<Rightarrow>
             (case rejected of
                None \<Rightarrow> settle ps order (Some e, evs @ [Error e, End])
              | Some e0 \<Rightarrow> settle ps order (rejected, evs))
         | Throws e \<Rightarrow> settle ps order (rejected, evs))
      else settle ps order (rejected, evs))"

fun resolved :: "pending list \<Rightarrow> fileobj list list" where
  "resolved [] = []"
| "resolved (Settles (Inr files) evs # ps) = files # resolved ps"
| "resolved (p # ps) = resolved ps"

text \<open>
  \<open>find\<close>: the result (the rejection, or the names), every notification in the order
  emitted, and the instance and the log after it.
\<close>

definition find ::
  "(string list \<Rightarrow> string list) \<Rightarrow> walks \<Rightarrow> (string \<Rightarrow> error + fileobj) \<Rightarrow> nat list
     \<Rightarrow> filehound \<times> walk \<Rightarrow> (error + string list) \<times> event list \<times> filehound \<times> walk"
where
  "find reducePaths walks fs order s =
     (let this = initFilters (fst s);
          (ps, w) = start_searches walks fs this (getSearchPaths reducePaths this) (snd s)
      in case thrown ps of
           Some e \<Rightarrow> (Inl e, snd (settle ps order (Some e, [Error e, End])), this, w)
         | None \<Rightarrow>
             (case settle ps order (None, []) of
                (Some e, evs) \<Rightarrow> (Inl e, evs, this, w)
              | (None, evs) \<Rightarrow>
                  (case reduce_flatten (resolved ps) of
                     Inl e \<Rightarrow> (Inl e, evs @ [Error e, End], this, w)
                   | Inr files \<Rightarrow> (Inr (map toFilename files), evs @ [End], this, w))))"

text \<open>
  One outcome of the walk of a root: the one \<open>search\<close> computes on arrays, listings
  completing in depth-first order.  It is the only outcome when at most one listing can
  fail and at most one directory is tracked.
\<close>

definition walkInOrder :: "filehound \<Rightarrow> (string \<Rightarrow> error + fileobj) \<Rightarrow> walks" where
  "walkInOrder this fs dir =
     (case fs dir of
        Inl e \<Rightarrow> Inl e
      | Inr root \<Rightarrow>
          (case search this root root \<lparr>trackedPaths = [], listed = [], evaluated = []\<rparr> of
             (Inl e, w) \<Rightarrow> Inl e
           | (Inr files, w) \<Rightarrow> Inr (files, trackedPaths w)))"

section \<open>Sequences of method calls\<close>

text \<open>
  The methods of an instance, as far as they change it.  \<open>AddFilter\<close> stands for every
  method that only adds a predicate (\<open>modified\<close>, \<open>accessed\<close>, \<open>changed\<close>, \<open>size\<close>,
  \<open>isEmpty\<close>, \<open>glob\<close>, \<open>match\<close>, \<open>socket\<close>, and \<open>discard\<close> once per pattern).
\<close>

datatype call =
    AddFilter "fileobj \<Rightarrow> bool"
  | Paths "string arg list"
  | Ext "string arg list"
  | Not
  | IgnoreHiddenFiles
  | IgnoreHiddenDirectories
  | Directory
  | Depth int
  | FindSync
  | Find walks "nat list"

fun exec ::
  "(string list \<Rightarrow> string list) \<Rightarrow> (string \<Rightarrow> string) \<Rightarrow> (string \<Rightarrow> error + fileobj)
     \<Rightarrow> filehound \<times> walk \<Rightarrow> call \<Rightarrow> filehound \<times> walk"
where
  "exec rp np fs s (AddFilter p) = (addFilter p (fst s), snd s)"
| "exec rp np fs s (Paths args) = (paths np args (fst s), snd s)"
| "exec rp np fs s (Ext args) = (ext args (fst s), snd s)"
| "exec rp np fs s Not = (not (fst s), snd s)"
| "exec rp np fs s IgnoreHiddenFiles = (ignoreHiddenFiles (fst s), snd s)"
| "exec rp np fs s IgnoreHiddenDirectories = (ignoreHiddenDirectories (fst s), snd s)"
| "exec rp np fs s Directory = (directory (fst s), snd s)"
| "exec rp np fs s (Depth d) = (depth d (fst s), snd s)"
| "exec rp np fs s FindSync = snd (findSync rp fs s)"
| "exec rp np fs s (Find walks order) = snd (snd (find rp walks fs order s))"

definition run ::
  "(string list \<Rightarrow> string list) \<Rightarrow> (string \<Rightarrow> string) \<Rightarrow> (string \<Rightarrow> error + fileobj)
     \<Rightarrow> call list \<Rightarrow> filehound \<times> walk \<Rightarrow> filehound \<times> walk"
where
  "run rp np fs calls s = foldl (exec rp np fs) s calls"

section \<open>A concrete file system\<close>

text \<open>
  The root directory \<open>/\<close> holds the directory \<open>/r\<close>, which holds \<open>a.txt\<close>,
  \<open>b.log\<close>, the hidden \<open>.c.txt\<close> and the directory \<open>sub\<close>, which holds \<open>d.txt\<close>
  and the hidden directory \<open>.h\<close>, which holds \<open>e.txt\<close>; no other path exists.
  Depths are as file-js counts them: \<open>/\<close> and \<open>/r\<close> have one separator each, and a
  file has the depth of its directory.  Listing a file that is no directory raises.
\<close>

definition notListable :: "error + fileobj list" where
  "notListable = Inl (ListingError ''ENOTDIR'')"

definition a_txt :: fileobj where
  "a_txt = File ''/r/a.txt'' 1 False False ''txt'' notListable"

definition b_log :: fileobj where
  "b_log = File ''/r/b.log'' 1 False False ''log'' notListable"

definition c_txt :: fileobj where
  "c_txt = File ''/r/.c.txt'' 1 False True ''txt'' notListable"

definition d_txt :: fileobj where
  "d_txt = File ''/r/sub/d.txt'' 2 False False ''txt'' notListable"

definition e_txt :: fileobj where
  "e_txt = File ''/r/sub/.h/e.txt'' 3 False False ''txt'' notListable"

definition h_dir :: fileobj where
  "h_dir = File ''/r/sub/.h'' 3 True True [] (Inr [e_txt])"

definition sub :: fileobj where
  "sub = File ''/r/sub'' 2 True False [] (Inr [d_txt, h_dir])"

definition r_dir :: fileobj where
  "r_dir = File ''/r'' 1 True False [] (Inr [a_txt, b_log, c_txt, sub])"

definition slash_dir :: fileobj where
  "slash_dir = File ''/'' 1 True False [] (Inr [r_dir])"

definition exampleFs :: "string \<Rightarrow> error + fileobj" where
  "exampleFs p =
     (if p = ''/'' then Inr slash_dir
      else if p = ''/r'' then Inr r_dir
      else if p = ''/r/sub'' then Inr sub
      else if p = ''/r/sub/.h'' then Inr h_dir
      else Inl (StatError ''ENOENT''))"

definition newWalk :: walk where
  "newWalk = \<lparr>trackedPaths = [], listed = [], evaluated = []\<rparr>"

text \<open>Two instances: both ignore hidden directories, one is in directories-only mode.\<close>

definition dirsOnly :: filehound where
  "dirsOnly = initFilters (directory (ignoreHiddenDirectories (create ''/r'')))"

definition noHiddenDirs :: filehound where
  "noHiddenDirs = initFilters (ignoreHiddenDirectories (create ''/r''))"

text \<open>
  For runs: a stand-in for \<open>reducePaths\<close> that keeps every path (the instances below
  set \<open>maxDepth\<close>, so it is never called), walks that are never consulted, and
  instances with one root, with no root, with a present and a missing root, with nested
  roots, and in directories-only mode.
\<close>

definition keepPaths :: "string list \<Rightarrow> string list" where
  "keepPaths ps = ps"

definition noWalks :: walks where
  "noWalks dir = Inl (ListingError ''not consulted'')"

definition deep :: filehound where
  "deep = depth 5 (create ''/r'')"

definition noPaths :: filehound where
  "noPaths = paths normalize_posix [] (depth 0 (create ''/r''))"

definition twoRoots :: filehound where
  "twoRoots = paths normalize_posix [Single ''/r'', Single ''/missing''] (depth 0 (create ''/''))"

definition missingFirst :: filehound where
  "missingFirst = paths normalize_posix [Single ''/missing'', Single ''/r''] (depth 0 (create ''/''))"

definition nestedRoots :: filehound where
  "nestedRoots = paths normalize_posix [Single ''/r/sub'', Single ''/r''] (depth 0 (create ''/''))"

definition dirsDepthOne :: filehound where
  "dirsDepthOne = directory (depth 1 (create ''/r''))"

text \<open>
  For the proofs: the listings \<open>w'\<close> holds beyond those of \<open>w\<close> are synchronous ones
  when the \<open>sync\<close> flag of \<open>this\<close> is set.
\<close>

definition appended :: "filehound \<Rightarrow> walk \<Rightarrow> walk \<Rightarrow> bool" where
  "appended this w w' =
     (\<exists>L. listed w' = listed w @ L \<and> (sync this \<longrightarrow> list_all isSyncListing L))"

section \<open>Properties of the predicate set\<close>

lemma foldl_conj_False: "foldl (\<lambda>acc f. acc \<and> f x) False fs = False"
  by (induction fs) simp_all

lemma compose_list_all: "compose fs x = list_all (\<lambda>p. p x) fs"
  unfolding compose_def
proof (induction fs)
  case Nil
  show ?case by simp
next
  case (Cons f fs)
  show ?case
  proof (cases "f x")
    case True
    with Cons show ?thesis by simp
  next
    case False
    then show ?thesis by (simp add: foldl_conj_False)
  qed
qed

lemma filters_foldl_addFilter:
  "filters (foldl (\<lambda>t p. addFilter p t) this ps) = filters this @ ps"
  by (induction ps arbitrary: this) (simp_all add: addFilter_def)

lemma not_list_all_list_ex: "(\<not> list_all P xs) = list_ex (\<lambda>x. \<not> P x) xs"
  by (induction xs) simp_all

text \<open>
  C1.  Once \<open>initFilters\<close> has finalized the predicate set, evaluating it on any entry
  gives the conjunction of all added predicates, XOR-ed with the flag \<open>not\<close> sets; no
  predicate gives true XOR the flag; after \<open>not\<close> an entry matches iff some predicate
  rejects it; \<open>addFilter\<close> appends, so the predicates stand in insertion order.
\<close>

theorem evaluate_is_conjunction_xor_negate:
  "isMatch (initFilters this) entry
     = (list_all (\<lambda>p. p entry) (filters this) \<noteq> negateFilters this)
   \<and> isMatch (initFilters (this\<lparr>filters := []\<rparr>)) entry = (\<not> negateFilters this)
   \<and> negateFilters (not this)
   \<and> isMatch (initFilters (not this)) entry
       = list_ex (\<lambda>p. \<not> p entry) (filters this)
   \<and> filters (foldl (\<lambda>t p. addFilter p t) this ps) = filters this @ ps"
proof -
  have a: "isMatch (initFilters t) entry
             = (list_all (\<lambda>p. p entry) (filters t) \<noteq> negateFilters t)" for t
    by (simp add: initFilters_def newMatcher_def Let_def negate_def compose_list_all)
  have b: "isMatch (initFilters (this\<lparr>filters := []\<rparr>)) entry = (\<not> negateFilters this)"
    using a [of "this\<lparr>filters := []\<rparr>"] by simp
  have c: "negateFilters (not this)"
    by (simp add: not_def)
  have d: "isMatch (initFilters (not this)) entry
             = list_ex (\<lambda>p. \<not> p entry) (filters this)"
    using a [of "not this"] by (simp add: not_def not_list_all_list_ex)
  show ?thesis
    using a [of this] b c d filters_foldl_addFilter [of this ps] by blast
qed

lemmas example_defs = notListable_def a_txt_def b_log_def c_txt_def d_txt_def e_txt_def
  h_dir_def sub_def r_dir_def slash_dir_def exampleFs_def newWalk_def

lemmas builder_defs = create_def depth_def directory_def ignoreHiddenDirectories_def
  ignoreHiddenFiles_def not_def addFilter_def initFilters_def newMatcher_def compose_def
  negate_def

section \<open>Properties of directory pruning\<close>

lemma foldl_flatten: "foldl flatten acc xss = acc @ concat xss"
  by (induction xss arbitrary: acc) (simp_all add: flatten_def)


lemma search_pruned: "shouldFilterDirectory this root d \<Longrightarrow> search this root d w = (Inr [], w)"
  by (simp add: search.simps)




lemma searchSync_no_root:
  "fs p = Inl e \<Longrightarrow>
     searchSync fs p s = (Inl e, (fst s)\<lparr>sync := True\<rparr>, (snd s)\<lparr>trackedPaths := []\<rparr>)"
  by (simp add: searchSync_def Let_def)

lemma searchSync_unfold:
  assumes "fs p = Inr root"
    and "search ((fst s)\<lparr>sync := True\<rparr>) root root ((snd s)\<lparr>trackedPaths := []\<rparr>) = (r, w1)"
  shows "searchSync fs p s =
           (case r of
              Inl e \<Rightarrow> (Inl e, (fst s)\<lparr>sync := True\<rparr>, w1)
            | Inr found \<Rightarrow>
                if directoriesOnly (fst s)
                then (Inr (filter (isMatch (fst s)) (trackedPaths w1)), (fst s)\<lparr>sync := True\<rparr>,
                      w1\<lparr>evaluated := evaluated w1 @ trackedPaths w1\<rparr>)
                else (Inr found, (fst s)\<lparr>sync := True\<rparr>, w1))"
  unfolding searchSync_def Let_def assms sum.case prod.case
  by (cases r) simp_all






section \<open>Properties of the walk\<close>

lemmas walk_defs = searchSync_def search.simps shouldFilterDirectory_def atMaxDepth_def
  isDefined_def getFiles_def flatten_def Let_def

lemma growsI:
  "trackedPaths w' = trackedPaths w @ T \<Longrightarrow> listed w' = listed w @ L
   \<Longrightarrow> evaluated w' = evaluated w @ E
   \<Longrightarrow> \<forall>t\<in>set T. isDirectorySync t \<and> \<not> shouldFilterDirectory this root t
                       \<and> t \<in> base \<union> entriesOf L
   \<Longrightarrow> \<forall>l\<in>set L. \<not> shouldFilterDirectory this root (listedDir l)
                       \<and> l = getFiles this (listedDir l)
   \<Longrightarrow> set E \<subseteq> base \<union> entriesOf L \<Longrightarrow> out \<subseteq> base \<union> entriesOf L
   \<Longrightarrow> grows this root base w w' out"
  unfolding grows_def by blast

lemma entriesOf_append: "entriesOf (a @ b) = entriesOf a \<union> entriesOf b"
  by (simp add: entriesOf_def)

lemma entriesOf_Nil: "entriesOf [] = {}"
  by (simp add: entriesOf_def)

lemma entriesOf_single:
  "getFilesSync d = Inr files \<Longrightarrow> entriesOf [getFiles this d] = set files"
  by (simp add: entriesOf_def getFiles_def)

lemma listedDir_getFiles: "listedDir (getFiles this d) = d"
  by (simp add: getFiles_def)

lemma grows_refl: "out \<subseteq> base \<Longrightarrow> grows this root base w w out"
  by (rule growsI [where T = "[]" and L = "[]" and E = "[]"]) (simp_all add: entriesOf_Nil)

lemma grows_trans:
  assumes "grows this root base w w1 out1" and "grows this root base w1 w2 out2"
  shows "grows this root base w w2 (out1 \<union> out2)"
proof -
  from assms(1) obtain T1 L1 E1 where
    a: "trackedPaths w1 = trackedPaths w @ T1" "listed w1 = listed w @ L1"
       "evaluated w1 = evaluated w @ E1"
       "\<forall>t\<in>set T1. isDirectorySync t \<and> \<not> shouldFilterDirectory this root t
                       \<and> t \<in> base \<union> entriesOf L1"
       "\<forall>l\<in>set L1. \<not> shouldFilterDirectory this root (listedDir l)
                       \<and> l = getFiles this (listedDir l)"
       "set E1 \<subseteq> base \<union> entriesOf L1" "out1 \<subseteq> base \<union> entriesOf L1"
    unfolding grows_def by blast
  from assms(2) obtain T2 L2 E2 where
    b: "trackedPaths w2 = trackedPaths w1 @ T2" "listed w2 = listed w1 @ L2"
       "evaluated w2 = evaluated w1 @ E2"
       "\<forall>t\<in>set T2. isDirectorySync t \<and> \<not> shouldFilterDirectory this root t
                       \<and> t \<in> base \<union> entriesOf L2"
       "\<forall>l\<in>set L2. \<not> shouldFilterDirectory this root (listedDir l)
                       \<and> l = getFiles this (listedDir l)"
       "set E2 \<subseteq> base \<union> entriesOf L2" "out2 \<subseteq> base \<union> entriesOf L2"
    unfolding grows_def by blast
  show ?thesis
  proof (rule growsI [where T = "T1 @ T2" and L = "L1 @ L2" and E = "E1 @ E2"])
    show "trackedPaths w2 = trackedPaths w @ T1 @ T2" using a(1) b(1) by simp
    show "listed w2 = listed w @ L1 @ L2" using a(2) b(2) by simp
    show "evaluated w2 = evaluated w @ E1 @ E2" using a(3) b(3) by simp
    show "\<forall>t\<in>set (T1 @ T2). isDirectorySync t \<and> \<not> shouldFilterDirectory this root t
                       \<and> t \<in> base \<union> entriesOf (L1 @ L2)"
      using a(4) b(4) by (auto simp: entriesOf_append)
    show "\<forall>l\<in>set (L1 @ L2). \<not> shouldFilterDirectory this root (listedDir l)
                       \<and> l = getFiles this (listedDir l)"
      using a(5) b(5) by auto
    show "set (E1 @ E2) \<subseteq> base \<union> entriesOf (L1 @ L2)"
      using a(6) b(6) by (auto simp: entriesOf_append)
    show "out1 \<union> out2 \<subseteq> base \<union> entriesOf (L1 @ L2)"
      using a(7) b(7) by (auto simp: entriesOf_append)
  qed
qed

lemma grows_weaken:
  assumes g: "grows this root base w w' out" and "base \<subseteq> base'" and "out' \<subseteq> out \<union> base'"
  shows "grows this root base' w w' out'"
proof -
  from g obtain T L E where
    a: "trackedPaths w' = trackedPaths w @ T" "listed w' = listed w @ L"
       "evaluated w' = evaluated w @ E"
       "\<forall>t\<in>set T. isDirectorySync t \<and> \<not> shouldFilterDirectory this root t
                       \<and> t \<in> base \<union> entriesOf L"
       "\<forall>l\<in>set L. \<not> shouldFilterDirectory this root (listedDir l)
                       \<and> l = getFiles this (listedDir l)"
       "set E \<subseteq> base \<union> entriesOf L" "out \<subseteq> base \<union> entriesOf L"
    unfolding grows_def by auto
  show ?thesis
  proof (rule growsI [where T = T and L = L and E = E])
    show "\<forall>t\<in>set T. isDirectorySync t \<and> \<not> shouldFilterDirectory this root t
                       \<and> t \<in> base' \<union> entriesOf L"
      using a(4) assms(2) by blast
    show "set E \<subseteq> base' \<union> entriesOf L" using a(6) assms(2) by blast
    show "out' \<subseteq> base' \<union> entriesOf L" using a(7) assms(2,3) by blast
  qed (use a in simp_all)
qed

lemma grows_track:
  assumes "isDirectorySync f" and "\<not> shouldFilterDirectory this root f" and "f \<in> base"
  shows "grows this root base w (w\<lparr>trackedPaths := trackedPaths w @ [f]\<rparr>) {}"
  by (rule growsI [where T = "[f]" and L = "[]" and E = "[]"])
     (simp_all add: assms entriesOf_Nil)

lemma grows_listing:
  assumes np: "\<not> shouldFilterDirectory this root d"
    and g: "grows this root base (w\<lparr>listed := listed w @ [getFiles this d]\<rparr>) w1 out"
    and sub: "base \<subseteq> entriesOf [getFiles this d]"
  shows "grows this root {} w w1 out"
proof -
  from g obtain T L E where
    a: "trackedPaths w1 = trackedPaths w @ T" "listed w1 = (listed w @ [getFiles this d]) @ L"
       "evaluated w1 = evaluated w @ E"
       "\<forall>t\<in>set T. isDirectorySync t \<and> \<not> shouldFilterDirectory this root t
                       \<and> t \<in> base \<union> entriesOf L"
       "\<forall>l\<in>set L. \<not> shouldFilterDirectory this root (listedDir l)
                       \<and> l = getFiles this (listedDir l)"
       "set E \<subseteq> base \<union> entriesOf L" "out \<subseteq> base \<union> entriesOf L"
    unfolding grows_def by auto
  have e: "base \<union> entriesOf L \<subseteq> {} \<union> entriesOf (getFiles this d # L)"
    using sub entriesOf_append [of "[getFiles this d]" L] by auto
  show ?thesis
  proof (rule growsI [where T = T and L = "getFiles this d # L" and E = E])
    show "trackedPaths w1 = trackedPaths w @ T" by (rule a(1))
    show "listed w1 = listed w @ getFiles this d # L" using a(2) by simp
    show "evaluated w1 = evaluated w @ E" by (rule a(3))
    show "\<forall>t\<in>set T. isDirectorySync t \<and> \<not> shouldFilterDirectory this root t
                       \<and> t \<in> {} \<union> entriesOf (getFiles this d # L)"
      using a(4) e by blast
    show "\<forall>l\<in>set (getFiles this d # L). \<not> shouldFilterDirectory this root (listedDir l)
                       \<and> l = getFiles this (listedDir l)"
      using a(5) np by (simp add: listedDir_getFiles)
    show "set E \<subseteq> {} \<union> entriesOf (getFiles this d # L)" using a(6) e by blast
    show "out \<subseteq> {} \<union> entriesOf (getFiles this d # L)" using a(7) e by blast
  qed
qed

lemma grows_evaluate:
  assumes g: "grows this root base w w1 out" and "set es \<subseteq> out" and "out' \<subseteq> out"
  shows "grows this root base w (w1\<lparr>evaluated := evaluated w1 @ es\<rparr>) out'"
proof -
  from g obtain T L E where
    a: "trackedPaths w1 = trackedPaths w @ T" "listed w1 = listed w @ L"
       "evaluated w1 = evaluated w @ E"
       "\<forall>t\<in>set T. isDirectorySync t \<and> \<not> shouldFilterDirectory this root t
                       \<and> t \<in> base \<union> entriesOf L"
       "\<forall>l\<in>set L. \<not> shouldFilterDirectory this root (listedDir l)
                       \<and> l = getFiles this (listedDir l)"
       "set E \<subseteq> base \<union> entriesOf L" "out \<subseteq> base \<union> entriesOf L"
    unfolding grows_def by auto
  show ?thesis
  proof (rule growsI [where T = T and L = L and E = "E @ es"])
    show "set (E @ es) \<subseteq> base \<union> entriesOf L" using a(6,7) assms(2) by auto
    show "out' \<subseteq> base \<union> entriesOf L" using a(7) assms(3) by auto
  qed (use a in simp_all)
qed


lemma search_map_dir:
  assumes "isDirectorySync f"
    and "w0 = (if \<not> shouldFilterDirectory this root f
               then w\<lparr>trackedPaths := trackedPaths w @ [f]\<rparr> else w)"
    and "search this root f w0 = (r1, w1)"
  shows "search_map this root (f # rest) w
           = (case r1 of
                Inl e \<Rightarrow> (Inl e, w1)
              | Inr found \<Rightarrow>
                  (case search_map this root rest w1 of
                     (Inl e, w2) \<Rightarrow> (Inl e, w2)
                   | (Inr mapped, w2) \<Rightarrow> (Inr (found # mapped), w2)))"
proof -
  have "search_map this root (f # rest) w
          = (case search this root f w0 of
               (Inl e, w1) \<Rightarrow> (Inl e, w1)
             | (Inr found, w1) \<Rightarrow>
                 (case search_map this root rest w1 of
                    (Inl e, w2) \<Rightarrow> (Inl e, w2)
                  | (Inr mapped, w2) \<Rightarrow> (Inr (found # mapped), w2)))"
    unfolding assms(2) using assms(1) by (simp only: search_map.simps Let_def if_True)
  then show ?thesis
    by (simp only: assms(3) prod.case)
qed

lemma search_map_file:
  assumes "\<not> isDirectorySync f"
  shows "search_map this root (f # rest) w
           = (case search_map this root rest w of
                (Inl e, w2) \<Rightarrow> (Inl e, w2)
              | (Inr mapped, w2) \<Rightarrow> (Inr ([f] # mapped), w2))"
  using assms by (simp only: search_map.simps if_False)

lemma walk_grows:
  "search this root d w = (r, w') \<Longrightarrow>
     grows this root {} w w' (case r of Inr found \<Rightarrow> set found | Inl e \<Rightarrow> {})"
  "search_map this root files w = (m, w') \<Longrightarrow>
     grows this root (set files) w w' (case m of Inr mapped \<Rightarrow> set (concat mapped) | Inl e \<Rightarrow> {})"
proof (induction this root d w and this root files w arbitrary: r w' and m w'
       rule: search_search_map.induct)
  case (1 this root d w)
  show ?case
  proof (cases "shouldFilterDirectory this root d")
    case True
    with "1.prems" have "r = Inr []" "w' = w" by (simp_all add: search.simps)
    then show ?thesis by (simp add: grows_refl)
  next
    case np: False
    let ?w0 = "w\<lparr>listed := listed w @ [getFiles this d]\<rparr>"
    show ?thesis
    proof (cases "getFilesSync d")
      case (Inl e)
      with np "1.prems" have rw: "r = Inl e" "w' = ?w0" by (simp_all add: search.simps Let_def)
      have "grows this root {} ?w0 ?w0 {}" by (simp add: grows_refl)
      then have "grows this root {} w ?w0 {}"
        by (rule grows_listing [OF np]) simp
      with rw show ?thesis by simp
    next
      case (Inr files)
      obtain m w1 where sm: "search_map this root files ?w0 = (m, w1)"
        by (cases "search_map this root files ?w0")
      have ih: "grows this root (set files) ?w0 w1
                  (case m of Inr mapped \<Rightarrow> set (concat mapped) | Inl e \<Rightarrow> {})"
        by (rule "1.IH" [OF np refl Inr sm])
      have base: "set files \<subseteq> entriesOf [getFiles this d]"
        by (simp add: entriesOf_single [OF Inr])
      show ?thesis
      proof (cases m)
        case (Inl e)
        with np Inr sm "1.prems" have rw: "r = Inl e" "w' = w1"
          by (simp_all add: search.simps Let_def)
        from ih Inl have "grows this root (set files) ?w0 w1 {}" by simp
        then have "grows this root {} w w1 {}" by (rule grows_listing [OF np _ base])
        with rw show ?thesis by simp
      next
        case (Inr mapped)
        let ?flat = "foldl flatten [] mapped"
        have fl: "?flat = concat mapped" by (simp add: foldl_flatten)
        from np \<open>getFilesSync d = Inr files\<close> sm Inr "1.prems"
        have rw: "r = Inr (filter (isMatch this) ?flat)"
                 "w' = w1\<lparr>evaluated := evaluated w1 @ ?flat\<rparr>"
          by (simp_all add: search.simps Let_def)
        from ih Inr have "grows this root (set files) ?w0 w1 (set (concat mapped))" by simp
        then have "grows this root {} w w1 (set (concat mapped))"
          by (rule grows_listing [OF np _ base])
        then have "grows this root {} w (w1\<lparr>evaluated := evaluated w1 @ ?flat\<rparr>)
                     (set (filter (isMatch this) ?flat))"
          by (rule grows_evaluate) (auto simp: fl)
        with rw show ?thesis by simp
      qed
    qed
  qed
next
  case (2 this root w)
  then show ?case by (auto simp: grows_refl)
next
  case (3 this root f rest w)
  show ?case
  proof (cases "isDirectorySync f")
    case dir: True
    define w0 where "w0 = (if \<not> shouldFilterDirectory this root f
               then w\<lparr>trackedPaths := trackedPaths w @ [f]\<rparr> else w)"
    have g0: "grows this root (set (f # rest)) w w0 {}"
      unfolding w0_def using dir by (simp add: grows_refl grows_track)
    obtain r1 w1 where s1: "search this root f w0 = (r1, w1)"
      by (cases "search this root f w0")
    note unfold = search_map_dir [OF dir w0_def s1, of rest]
    have ih1: "grows this root {} w0 w1 (case r1 of Inr found \<Rightarrow> set found | Inl e \<Rightarrow> {})"
      by (rule "3.IH"(1) [OF dir w0_def s1])
    show ?thesis
    proof (cases r1)
      case (Inl e)
      with unfold "3.prems" have rw: "m = Inl e" "w' = w1" by simp_all
      from ih1 have "grows this root (set (f # rest)) w0 w1 {}"
        by (rule grows_weaken) (simp_all add: Inl)
      with g0 have "grows this root (set (f # rest)) w w1 ({} \<union> {})"
        by (rule grows_trans)
      with rw show ?thesis by simp
    next
      case (Inr found)
      obtain m2 w2 where s2: "search_map this root rest w1 = (m2, w2)"
        by (cases "search_map this root rest w1")
      have ih2: "grows this root (set rest) w1 w2
                   (case m2 of Inr mapped \<Rightarrow> set (concat mapped) | Inl e \<Rightarrow> {})"
        by (rule "3.IH"(2) [OF dir w0_def s1 [symmetric] Inr s2])
      from ih1 Inr have "grows this root {} w0 w1 (set found)" by simp
      then have a: "grows this root (set (f # rest)) w0 w1 (set found)"
        by (rule grows_weaken) auto
      from g0 a have b: "grows this root (set (f # rest)) w w1 ({} \<union> set found)"
        by (rule grows_trans)
      show ?thesis
      proof (cases m2)
        case (Inl e)
        with unfold s2 Inr "3.prems" have rw: "m = Inl e" "w' = w2" by simp_all
        from ih2 Inl have "grows this root (set rest) w1 w2 {}" by simp
        then have "grows this root (set (f # rest)) w1 w2 {}"
          by (rule grows_weaken) auto
        with b have "grows this root (set (f # rest)) w w2 (({} \<union> set found) \<union> {})"
          by (rule grows_trans)
        then have "grows this root (set (f # rest)) w w2 {}"
          by (rule grows_weaken) simp_all
        with rw show ?thesis by simp
      next
        case mapped: (Inr mapped)
        with unfold s2 Inr "3.prems" have rw: "m = Inr (found # mapped)" "w' = w2"
          by simp_all
        from ih2 mapped have "grows this root (set rest) w1 w2 (set (concat mapped))" by simp
        then have "grows this root (set (f # rest)) w1 w2 (set (concat mapped))"
          by (rule grows_weaken) auto
        with b have "grows this root (set (f # rest)) w w2
                       (({} \<union> set found) \<union> set (concat mapped))"
          by (rule grows_trans)
        then have "grows this root (set (f # rest)) w w2 (set (concat (found # mapped)))"
          by (rule grows_weaken) auto
        with rw show ?thesis by simp
      qed
    qed
  next
    case nodir: False
    obtain m2 w2 where s2: "search_map this root rest w = (m2, w2)"
      by (cases "search_map this root rest w")
    note unfold = search_map_file [OF nodir, of this root rest w]
    have ih: "grows this root (set rest) w w2
                (case m2 of Inr mapped \<Rightarrow> set (concat mapped) | Inl e \<Rightarrow> {})"
      by (rule "3.IH"(3) [OF nodir s2])
    show ?thesis
    proof (cases m2)
      case (Inl e)
      with unfold s2 "3.prems" have rw: "m = Inl e" "w' = w2" by simp_all
      from ih Inl have "grows this root (set rest) w w2 {}" by simp
      then have "grows this root (set (f # rest)) w w2 {}"
        by (rule grows_weaken) auto
      with rw show ?thesis by simp
    next
      case (Inr mapped)
      with unfold s2 "3.prems" have rw: "m = Inr ([f] # mapped)" "w' = w2" by simp_all
      from ih Inr have "grows this root (set rest) w w2 (set (concat mapped))" by simp
      then have "grows this root (set (f # rest)) w w2 (set (concat ([f] # mapped)))"
        by (rule grows_weaken) auto
      with rw show ?thesis by simp
    qed
  qed
qed

lemma walk_tracked:
  "search this root d w = (Inr found, w') \<Longrightarrow>
     trackedPaths w' = trackedPaths w @
       (if shouldFilterDirectory this root d then []
        else visited (shouldFilterDirectory this root)
               (case getFilesSync d of Inr files \<Rightarrow> files | Inl e \<Rightarrow> []))"
  "search_map this root files w = (Inr mapped, w') \<Longrightarrow>
     trackedPaths w' = trackedPaths w @ visited (shouldFilterDirectory this root) files"
proof (induction this root d w and this root files w arbitrary: found w' and mapped w'
       rule: search_search_map.induct)
  case (1 this root d w)
  show ?case
  proof (cases "shouldFilterDirectory this root d")
    case True
    with "1.prems" show ?thesis by (simp add: search.simps)
  next
    case np: False
    let ?w0 = "w\<lparr>listed := listed w @ [getFiles this d]\<rparr>"
    show ?thesis
    proof (cases "getFilesSync d")
      case (Inl e)
      with np "1.prems" show ?thesis by (simp add: search.simps Let_def)
    next
      case (Inr files)
      obtain m w1 where sm: "search_map this root files ?w0 = (m, w1)"
        by (cases "search_map this root files ?w0")
      show ?thesis
      proof (cases m)
        case (Inl e)
        with np Inr sm "1.prems" show ?thesis by (simp add: search.simps Let_def)
      next
        case mapped: (Inr mapped)
        with np Inr sm "1.prems" have rw: "w' = w1\<lparr>evaluated := evaluated w1 @ foldl flatten [] mapped\<rparr>"
          by (simp add: search.simps Let_def)
        have "trackedPaths w1 = trackedPaths ?w0 @ visited (shouldFilterDirectory this root) files"
          by (rule "1.IH" [OF np refl Inr]) (simp add: sm mapped)
        with rw np Inr show ?thesis by simp
      qed
    qed
  qed
next
  case (2 this root w)
  then show ?case by auto
next
  case (3 this root f rest w)
  show ?case
  proof (cases "isDirectorySync f")
    case dir: True
    define w0 where "w0 = (if \<not> shouldFilterDirectory this root f
               then w\<lparr>trackedPaths := trackedPaths w @ [f]\<rparr> else w)"
    obtain r1 w1 where s1: "search this root f w0 = (r1, w1)"
      by (cases "search this root f w0")
    note unfold = search_map_dir [OF dir w0_def s1, of rest]
    show ?thesis
    proof (cases r1)
      case (Inl e)
      from "3.prems" [unfolded unfold Inl sum.case] show ?thesis by simp
    next
      case (Inr found)
      obtain m2 w2 where s2: "search_map this root rest w1 = (m2, w2)"
        by (cases "search_map this root rest w1")
      note eq = "3.prems" [unfolded unfold Inr sum.case s2 prod.case]
      from eq have "m2 = Inr (tl mapped) \<and> w' = w2"
        by (cases m2) auto
      then have m2: "m2 = Inr (tl mapped)" and w2: "w' = w2"
        by simp_all
      have t1: "trackedPaths w1 = trackedPaths w0 @
                  (if shouldFilterDirectory this root f then []
                   else visited (shouldFilterDirectory this root)
                          (case getFilesSync f of Inr files \<Rightarrow> files | Inl e \<Rightarrow> []))"
        by (rule "3.IH"(1) [OF dir w0_def]) (simp add: s1 Inr)
      have t2: "trackedPaths w2 = trackedPaths w1 @ visited (shouldFilterDirectory this root) rest"
        by (rule "3.IH"(2) [OF dir w0_def s1 [symmetric] Inr]) (simp add: s2 m2)
      have nolist: "getFilesSync f = Inl e \<Longrightarrow> False" if "\<not> shouldFilterDirectory this root f" for e
        using that s1 Inr by (simp add: search.simps Let_def)
      show ?thesis
      proof (cases "shouldFilterDirectory this root f")
        case True
        with t1 t2 w2 dir show ?thesis by (simp add: w0_def)
      next
        case False
        with t1 t2 w2 dir show ?thesis
          by (cases "getFilesSync f") (simp_all add: w0_def)
      qed
    qed
  next
    case nodir: False
    obtain m2 w2 where s2: "search_map this root rest w = (m2, w2)"
      by (cases "search_map this root rest w")
    note unfold = search_map_file [OF nodir, of this root rest w]
    note eq = "3.prems" [unfolded unfold s2 prod.case]
    from eq have "m2 = Inr (tl mapped) \<and> w' = w2"
      by (cases m2) auto
    then have m2: "m2 = Inr (tl mapped)" and w2: "w' = w2"
      by simp_all
    have "trackedPaths w2 = trackedPaths w @ visited (shouldFilterDirectory this root) rest"
      by (rule "3.IH"(3) [OF nodir]) (simp add: s2 m2)
    with w2 nodir show ?thesis by simp
  qed
qed

lemma shouldFilterDirectory_sync:
  "shouldFilterDirectory (this\<lparr>sync := b\<rparr>) root = shouldFilterDirectory this root"
  by (rule ext) (simp add: shouldFilterDirectory_def atMaxDepth_def)

lemma searchSync_Inr:
  assumes "searchSync fs p s = (Inr found, this', w')"
  obtains root files w1 where
    "fs p = Inr root"
    "search ((fst s)\<lparr>sync := True\<rparr>) root root ((snd s)\<lparr>trackedPaths := []\<rparr>) = (Inr files, w1)"
    "this' = (fst s)\<lparr>sync := True\<rparr>"
    "directoriesOnly (fst s) \<Longrightarrow> found = filter (isMatch (fst s)) (trackedPaths w1)"
    "directoriesOnly (fst s) \<Longrightarrow> w' = w1\<lparr>evaluated := evaluated w1 @ trackedPaths w1\<rparr>"
    "\<not> directoriesOnly (fst s) \<Longrightarrow> found = files"
    "\<not> directoriesOnly (fst s) \<Longrightarrow> w' = w1"
proof (cases "fs p")
  case (Inl e)
  with assms show ?thesis by (simp add: searchSync_no_root)
next
  case rt: (Inr root)
  obtain r w1 where
    s: "search ((fst s)\<lparr>sync := True\<rparr>) root root ((snd s)\<lparr>trackedPaths := []\<rparr>) = (r, w1)"
    by (cases "search ((fst s)\<lparr>sync := True\<rparr>) root root ((snd s)\<lparr>trackedPaths := []\<rparr>)")
  note u = assms [unfolded searchSync_unfold [of fs p root s r w1, OF rt s]]
  show thesis
  proof (cases r)
    case (Inl e)
    with u show ?thesis by simp
  next
    case (Inr files)
    note s' = s [unfolded Inr]
    show ?thesis
    proof (cases "directoriesOnly (fst s)")
      case True
      with u Inr have "this' = (fst s)\<lparr>sync := True\<rparr>"
        "found = filter (isMatch (fst s)) (trackedPaths w1)"
        "w' = w1\<lparr>evaluated := evaluated w1 @ trackedPaths w1\<rparr>"
        by simp_all
      with True show ?thesis by (intro that [OF rt s']) simp_all
    next
      case False
      with u Inr have "this' = (fst s)\<lparr>sync := True\<rparr>" "found = files" "w' = w1"
        by simp_all
      with False show ?thesis by (intro that [OF rt s']) simp_all
    qed
  qed
qed

lemma example_directories_only: "searchSync exampleFs ''/r'' (dirsOnly, newWalk)
       = (Inr [sub], dirsOnly\<lparr>sync := True\<rparr>,
          \<lparr>trackedPaths = [sub],
           listed = [GetFilesSync r_dir, GetFilesSync sub],
           evaluated = [d_txt, a_txt, b_log, c_txt, d_txt, sub]\<rparr>)"
  by (simp add: dirsOnly_def walk_defs example_defs builder_defs)

lemma example_walk_in_order: "walkInOrder dirsOnly exampleFs ''/r'' = Inr ([a_txt, b_log, c_txt, d_txt], [sub])"
  by (simp add: walkInOrder_def dirsOnly_def walk_defs example_defs builder_defs)

lemma example_walk_without_hidden: "search noHiddenDirs r_dir r_dir newWalk
   = (Inr [a_txt, b_log, c_txt, d_txt],
          \<lparr>trackedPaths = [sub],
           listed = [GetFiles r_dir, GetFiles sub],
           evaluated = [d_txt, a_txt, b_log, c_txt, d_txt]\<rparr>)"
  by (simp add: noHiddenDirs_def walk_defs example_defs builder_defs)


lemma example_hidden_pruned: "shouldFilterDirectory noHiddenDirs r_dir h_dir"
  by (simp add: noHiddenDirs_def walk_defs example_defs builder_defs)

lemma example_dirsOnly_flags: "\<not> shouldFilterDirectory dirsOnly r_dir r_dir \<and> \<not> sync dirsOnly
            \<and> directoriesOnly dirsOnly \<and> isMatch dirsOnly sub"
  by (simp add: dirsOnly_def walk_defs example_defs builder_defs)

lemma example_visited: "visited (shouldFilterDirectory dirsOnly r_dir) [a_txt, b_log, c_txt, sub] = [sub]"
  by (simp add: dirsOnly_def walk_defs example_defs builder_defs)

text \<open>
  C3.  In directories-only mode, when the root's search returns, its result is the
  accumulated \<open>trackedPaths\<close> filtered through the finalized predicate set; the
  accumulated list is \<open>visited\<close> of the root's listing, so it holds directories only,
  each one not pruned (a child directory that the recursive call would prune is not
  pushed), and so does the result.  The continuation of \<open>searchAsync\<close> returns the
  filtered \<open>trackedPaths\<close> likewise.
\<close>

theorem directories_only_result:
  "(directoriesOnly (fst s) \<and> searchSync fs p s = (Inr found, this', w') \<longrightarrow>
      (\<exists>root. fs p = Inr root
        \<and> found = filter (isMatch (fst s)) (trackedPaths w')
        \<and> trackedPaths w' =
            (if shouldFilterDirectory (fst s) root root then []
             else visited (shouldFilterDirectory (fst s) root)
                    (case getFilesSync root of Inr files \<Rightarrow> files | Inl e \<Rightarrow> []))
        \<and> list_all (\<lambda>t. isDirectorySync t \<and> \<not> shouldFilterDirectory (fst s) root t)
              (trackedPaths w')
        \<and> list_all isDirectorySync found))
   \<and> (fs p = Inr top_dir \<and> directoriesOnly this \<and> \<not> sync this
        \<and> \<not> shouldFilterDirectory this top_dir top_dir
        \<and> walks p = Inr (files, tracked) \<longrightarrow>
      searchAsync walks fs p this w = (Settles (Inr (filter (isMatch this) tracked)) [], w))"
proof (intro conjI impI)
  assume a: "directoriesOnly (fst s) \<and> searchSync fs p s = (Inr found, this', w')"
  then have d: "directoriesOnly (fst s)" and ss: "searchSync fs p s = (Inr found, this', w')"
    by simp_all
  let ?t = "(fst s)\<lparr>sync := True\<rparr>"
  let ?w = "(snd s)\<lparr>trackedPaths := []\<rparr>"
  from ss obtain root files w1 where
    rt: "fs p = Inr root"
    and s1: "search ?t root root ?w = (Inr files, w1)"
    and f: "found = filter (isMatch (fst s)) (trackedPaths w1)"
    and w': "w' = w1\<lparr>evaluated := evaluated w1 @ trackedPaths w1\<rparr>"
    using d by - (erule searchSync_Inr, blast)
  have tr: "trackedPaths w' = trackedPaths w1" using w' by simp
  have c1: "found = filter (isMatch (fst s)) (trackedPaths w')" using f tr by simp
  have c2: "trackedPaths w' =
        (if shouldFilterDirectory (fst s) root root then []
         else visited (shouldFilterDirectory (fst s) root)
                (case getFilesSync root of Inr files \<Rightarrow> files | Inl e \<Rightarrow> []))"
    using walk_tracked(1) [OF s1] tr by (simp add: shouldFilterDirectory_sync)
  from walk_grows(1) [OF s1] obtain T where
    "trackedPaths w1 = trackedPaths ?w @ T"
    "\<forall>t\<in>set T. isDirectorySync t \<and> \<not> shouldFilterDirectory ?t root t"
    unfolding grows_def by auto
  then have c3: "list_all (\<lambda>t. isDirectorySync t \<and> \<not> shouldFilterDirectory (fst s) root t)
          (trackedPaths w')"
    using tr by (simp add: shouldFilterDirectory_sync list_all_iff)
  have c4: "list_all isDirectorySync found"
    using c3 f tr by (auto simp: list_all_iff)
  from rt c1 c2 c3 c4
  show "\<exists>root. fs p = Inr root
        \<and> found = filter (isMatch (fst s)) (trackedPaths w')
        \<and> trackedPaths w' =
            (if shouldFilterDirectory (fst s) root root then []
             else visited (shouldFilterDirectory (fst s) root)
                    (case getFilesSync root of Inr files \<Rightarrow> files | Inl e \<Rightarrow> []))
        \<and> list_all (\<lambda>t. isDirectorySync t \<and> \<not> shouldFilterDirectory (fst s) root t)
              (trackedPaths w')
        \<and> list_all isDirectorySync found"
    by blast
next
  assume "fs p = Inr top_dir \<and> directoriesOnly this \<and> \<not> sync this
        \<and> \<not> shouldFilterDirectory this top_dir top_dir
        \<and> walks p = Inr (files, tracked)"
  then show "searchAsync walks fs p this w = (Settles (Inr (filter (isMatch this) tracked)) [], w)"
    by (simp add: searchAsync_def)
qed

theorem directories_only_result_witness:
  "directoriesOnly dirsOnly
   \<and> exampleFs ''/r'' = Inr r_dir
   \<and> searchSync exampleFs ''/r'' (dirsOnly, newWalk)
       = (Inr [sub], dirsOnly\<lparr>sync := True\<rparr>,
          \<lparr>trackedPaths = [sub], listed = [GetFilesSync r_dir, GetFilesSync sub],
           evaluated = [d_txt, a_txt, b_log, c_txt, d_txt, sub]\<rparr>)
   \<and> [sub] = filter (isMatch dirsOnly) [sub]
   \<and> [sub] = visited (shouldFilterDirectory dirsOnly r_dir) [a_txt, b_log, c_txt, sub]
   \<and> isDirectorySync sub \<and> \<not> shouldFilterDirectory dirsOnly r_dir sub
   \<and> \<not> sync dirsOnly \<and> \<not> shouldFilterDirectory dirsOnly r_dir r_dir
   \<and> walkInOrder dirsOnly exampleFs ''/r'' = Inr ([a_txt, b_log, c_txt, d_txt], [sub])
   \<and> searchAsync (walkInOrder dirsOnly exampleFs) exampleFs ''/r'' dirsOnly newWalk
       = (Settles (Inr [sub]) [], newWalk)"
proof -
  let ?w = "\<lparr>trackedPaths = [sub], listed = [GetFilesSync r_dir, GetFilesSync sub],
             evaluated = [d_txt, a_txt, b_log, c_txt, d_txt, sub]\<rparr>"
  note t = directories_only_result [of "(dirsOnly, newWalk)" exampleFs "''/r''" "[sub]"
             "dirsOnly\<lparr>sync := True\<rparr>" ?w r_dir dirsOnly "walkInOrder dirsOnly exampleFs"
             "[a_txt, b_log, c_txt, d_txt]" "[sub]" newWalk]
  have r: "exampleFs ''/r'' = Inr r_dir" "getFilesSync r_dir = Inr [a_txt, b_log, c_txt, sub]"
    by (simp_all add: exampleFs_def r_dir_def)
  have h1: "directoriesOnly (fst (dirsOnly, newWalk))
            \<and> searchSync exampleFs ''/r'' (dirsOnly, newWalk) = (Inr [sub], dirsOnly\<lparr>sync := True\<rparr>, ?w)"
    using example_directories_only example_dirsOnly_flags by simp
  have h2: "exampleFs ''/r'' = Inr r_dir \<and> directoriesOnly dirsOnly \<and> \<not> sync dirsOnly
        \<and> \<not> shouldFilterDirectory dirsOnly r_dir r_dir
        \<and> walkInOrder dirsOnly exampleFs ''/r'' = Inr ([a_txt, b_log, c_txt, d_txt], [sub])"
    using example_walk_in_order example_dirsOnly_flags r(1) by simp
  from t h1 obtain root where
    c0: "exampleFs ''/r'' = Inr root"
    and c1: "[sub] = filter (isMatch (fst (dirsOnly, newWalk))) (trackedPaths ?w)"
      "trackedPaths ?w =
        (if shouldFilterDirectory (fst (dirsOnly, newWalk)) root root then []
         else visited (shouldFilterDirectory (fst (dirsOnly, newWalk)) root)
                (case getFilesSync root of Inr files \<Rightarrow> files | Inl e \<Rightarrow> []))"
      "list_all (\<lambda>t. isDirectorySync t \<and> \<not> shouldFilterDirectory (fst (dirsOnly, newWalk)) root t)
          (trackedPaths ?w)"
      "list_all isDirectorySync [sub]"
    by blast
  from c0 r(1) have root: "root = r_dir" by simp
  from t h2 have
    c2: "searchAsync (walkInOrder dirsOnly exampleFs) exampleFs ''/r'' dirsOnly newWalk
           = (Settles (Inr (filter (isMatch dirsOnly) [sub])) [], newWalk)"
    by blast
  from c1 [unfolded root] c2 h1 h2 example_dirsOnly_flags show ?thesis
    by (simp add: r example_visited del: visited.simps)
qed

text \<open>
  C7.  The walk of a directory that the pruning rule rejects returns the empty result
  and leaves the state as it was: no listing, no evaluation, nothing tracked.  In any
  walk, every directory listed is one the rule accepts, and every entry tracked,
  evaluated or returned comes from the listing of such a directory.
\<close>

theorem pruned_directories_are_never_listed:
  "(shouldFilterDirectory this root d \<longrightarrow> search this root d w = (Inr [], w))
   \<and> (search this root d w = (r, w') \<longrightarrow>
        (\<exists>T L E. trackedPaths w' = trackedPaths w @ T \<and> listed w' = listed w @ L
           \<and> evaluated w' = evaluated w @ E
           \<and> list_all (\<lambda>l. \<not> shouldFilterDirectory this root (listedDir l)) L
           \<and> list_all (\<lambda>t. \<not> shouldFilterDirectory this root t) T
           \<and> set T \<subseteq> entriesOf L \<and> set E \<subseteq> entriesOf L
           \<and> (case r of Inr found \<Rightarrow> set found \<subseteq> entriesOf L | Inl e \<Rightarrow> True)))"
proof (intro conjI impI)
  assume "shouldFilterDirectory this root d"
  then show "search this root d w = (Inr [], w)" by (rule search_pruned)
next
  assume "search this root d w = (r, w')"
  then have "grows this root {} w w' (case r of Inr found \<Rightarrow> set found | Inl e \<Rightarrow> {})"
    by (rule walk_grows(1))
  then obtain T L E where
    a: "trackedPaths w' = trackedPaths w @ T" "listed w' = listed w @ L"
       "evaluated w' = evaluated w @ E"
       "\<forall>t\<in>set T. isDirectorySync t \<and> \<not> shouldFilterDirectory this root t
                       \<and> t \<in> {} \<union> entriesOf L"
       "\<forall>l\<in>set L. \<not> shouldFilterDirectory this root (listedDir l)
                       \<and> l = getFiles this (listedDir l)"
       "set E \<subseteq> {} \<union> entriesOf L"
       "(case r of Inr found \<Rightarrow> set found | Inl e \<Rightarrow> {}) \<subseteq> {} \<union> entriesOf L"
    unfolding grows_def by blast
  have "list_all (\<lambda>l. \<not> shouldFilterDirectory this root (listedDir l)) L"
    using a(5) by (simp add: list_all_iff)
  moreover have "list_all (\<lambda>t. \<not> shouldFilterDirectory this root t) T"
    using a(4) by (simp add: list_all_iff)
  moreover have "set T \<subseteq> entriesOf L" using a(4) by auto
  moreover have "set E \<subseteq> entriesOf L" using a(6) by simp
  moreover have "case r of Inr found \<Rightarrow> set found \<subseteq> entriesOf L | Inl e \<Rightarrow> True"
    using a(7) by (cases r) simp_all
  ultimately show "\<exists>T L E. trackedPaths w' = trackedPaths w @ T \<and> listed w' = listed w @ L
           \<and> evaluated w' = evaluated w @ E
           \<and> list_all (\<lambda>l. \<not> shouldFilterDirectory this root (listedDir l)) L
           \<and> list_all (\<lambda>t. \<not> shouldFilterDirectory this root t) T
           \<and> set T \<subseteq> entriesOf L \<and> set E \<subseteq> entriesOf L
           \<and> (case r of Inr found \<Rightarrow> set found \<subseteq> entriesOf L | Inl e \<Rightarrow> True)"
    using a(1,2,3) by blast
qed
theorem pruned_directories_are_never_listed_witness:
  "shouldFilterDirectory noHiddenDirs r_dir h_dir
   \<and> getFilesSync h_dir = Inr [e_txt]
   \<and> search noHiddenDirs r_dir h_dir newWalk = (Inr [], newWalk)
   \<and> search noHiddenDirs r_dir r_dir newWalk
       = (Inr [a_txt, b_log, c_txt, d_txt],
          \<lparr>trackedPaths = [sub], listed = [GetFiles r_dir, GetFiles sub],
           evaluated = [d_txt, a_txt, b_log, c_txt, d_txt]\<rparr>)
   \<and> \<not> shouldFilterDirectory noHiddenDirs r_dir r_dir
   \<and> \<not> shouldFilterDirectory noHiddenDirs r_dir sub
   \<and> entriesOf [GetFiles r_dir, GetFiles sub] = {a_txt, b_log, c_txt, sub, d_txt, h_dir}"
proof -
  let ?w = "\<lparr>trackedPaths = [sub], listed = [GetFiles r_dir, GetFiles sub],
             evaluated = [d_txt, a_txt, b_log, c_txt, d_txt]\<rparr>"
  note t1 = pruned_directories_are_never_listed
              [of noHiddenDirs r_dir h_dir newWalk "Inr []" newWalk]
  note t2 = pruned_directories_are_never_listed
              [of noHiddenDirs r_dir r_dir newWalk "Inr [a_txt, b_log, c_txt, d_txt]" ?w]
  from t1 example_hidden_pruned have a: "search noHiddenDirs r_dir h_dir newWalk = (Inr [], newWalk)"
    by blast
  from t2 example_walk_without_hidden obtain T L E where
    b: "trackedPaths ?w = trackedPaths newWalk @ T" "listed ?w = listed newWalk @ L"
       "list_all (\<lambda>l. \<not> shouldFilterDirectory noHiddenDirs r_dir (listedDir l)) L"
       "list_all (\<lambda>t. \<not> shouldFilterDirectory noHiddenDirs r_dir t) T"
    by blast
  then have "L = [GetFiles r_dir, GetFiles sub]" "T = [sub]"
    by (simp_all add: newWalk_def)
  with b have c: "\<not> shouldFilterDirectory noHiddenDirs r_dir r_dir"
              "\<not> shouldFilterDirectory noHiddenDirs r_dir sub"
    by simp_all
  have e: "entriesOf [GetFiles r_dir, GetFiles sub] = {a_txt, b_log, c_txt, sub, d_txt, h_dir}"
    by (auto simp: entriesOf_def r_dir_def sub_def)
  have "getFilesSync h_dir = Inr [e_txt]" by (simp add: h_dir_def)
  with a c e example_walk_without_hidden example_hidden_pruned show ?thesis by simp
qed

section \<open>Properties of the search paths\<close>

lemma uniq_step_simps:
  "x \<in> set seen \<Longrightarrow> uniq_step seen x = seen"
  "x \<notin> set seen \<Longrightarrow> uniq_step seen x = seen @ [x]"
  by (simp_all add: uniq_step_def)

lemma uniq_acc_distinct: "distinct acc \<Longrightarrow> distinct (foldl uniq_step acc xs)"
proof (induction xs arbitrary: acc)
  case Nil
  then show ?case by simp
next
  case (Cons x xs)
  then show ?case by (cases "x \<in> set acc") (simp_all add: uniq_step_simps)
qed

lemma uniq_acc_set: "set (foldl uniq_step acc xs) = set acc \<union> set xs"
proof (induction xs arbitrary: acc)
  case Nil
  then show ?case by simp
next
  case (Cons x xs)
  then show ?case by (cases "x \<in> set acc") (auto simp: uniq_step_simps)
qed

lemma uniq_acc_split:
  "foldl uniq_step (acc :: 'a list) xs
     = acc @ foldl uniq_step [] (filter (\<lambda>y. y \<notin> set acc) xs)"
proof (induction xs arbitrary: acc rule: length_induct)
  case (1 xs)
  show ?case
  proof (cases xs)
    case Nil
    then show ?thesis by simp
  next
    case (Cons x rest)
    have ih: "foldl uniq_step a ys = a @ foldl uniq_step [] (filter (\<lambda>y. y \<notin> set a) ys)"
      if "length ys < length xs" for a and ys :: "'a list"
      using "1.IH" [rule_format, OF that] .
    show ?thesis
    proof (cases "x \<in> set acc")
      case True
      with Cons ih [of rest acc] show ?thesis by (simp add: uniq_step_simps)
    next
      case False
      have len: "length (filter (\<lambda>y. y \<notin> set acc) rest) < length xs"
        using Cons by (simp add: le_imp_less_Suc)
      have "foldl uniq_step acc xs = foldl uniq_step (acc @ [x]) rest"
        using Cons False by (simp add: uniq_step_simps)
      also have "\<dots> = (acc @ [x]) @ foldl uniq_step [] (filter (\<lambda>y. y \<notin> set (acc @ [x])) rest)"
        using Cons by (intro ih) simp
      also have "filter (\<lambda>y. y \<notin> set (acc @ [x])) rest
                   = filter (\<lambda>y. y \<notin> set [x]) (filter (\<lambda>y. y \<notin> set acc) rest)"
        by (auto intro: filter_cong)
      also have "(acc @ [x]) @ foldl uniq_step [] (filter (\<lambda>y. y \<notin> set [x]) (filter (\<lambda>y. y \<notin> set acc) rest))
                   = acc @ foldl uniq_step [x] (filter (\<lambda>y. y \<notin> set acc) rest)"
        using ih [OF len, of "[x]"] by simp
      also have "\<dots> = acc @ foldl uniq_step [] (filter (\<lambda>y. y \<notin> set acc) xs)"
        using Cons False by (simp add: uniq_step_simps)
      finally show ?thesis .
    qed
  qed
qed

lemma uniq_Cons: "uniq (x # xs) = x # uniq (filter (\<lambda>y. y \<noteq> x) xs)"
  using uniq_acc_split [of "[x]" xs] by (simp add: uniq_def uniq_step_simps)

lemma uniq_distinct: "distinct (uniq xs)"
  by (simp add: uniq_def uniq_acc_distinct)

lemma uniq_set: "set (uniq xs) = set xs"
  by (simp add: uniq_def uniq_acc_set)

text \<open>
  The model of \<open>path.normalize\<close> on Node's documented example and on the edge cases
  of \<open>..\<close>.
\<close>

lemma normalize_posix_parent: "normalize_posix ''/foo/bar/baz/..'' = ''/foo/bar''"
  by (simp add: normalize_posix_def Let_def)
lemma normalize_posix_doc_example: "normalize_posix ''/foo/bar//baz/asdf/quux/..'' = ''/foo/bar/baz/asdf''"
  by (simp add: normalize_posix_def Let_def)
lemma normalize_posix_fixed: "normalize_posix ''/foo/bar'' = ''/foo/bar''"
  by (simp add: normalize_posix_def Let_def)
lemma normalize_posix_relative: "normalize_posix ''../a/./b/'' = ''../a/b/''"
  by (simp add: normalize_posix_def Let_def)
lemma normalize_posix_above_root: "normalize_posix ''/..'' = ''/''"
  by (simp add: normalize_posix_def Let_def)


text \<open>
  C8, as amended.  \<open>paths\<close> flattens its arguments, removes duplicates by exact string
  equality (each string stays at its first occurrence, in order) and normalizes after
  that; the list it stores is free of duplicates when normalization maps no two of the
  given strings to one.
\<close>

theorem paths_dedup_then_normalize:
  "searchPaths (paths np args this) = map np (uniq (from_args args))
   \<and> from_args [] = []
   \<and> from_args (Single x # args) = x # from_args args
   \<and> from_args (Nested xs # args) = xs @ from_args args
   \<and> uniq [] = ([] :: string list)
   \<and> uniq (x # xs) = x # uniq (filter (\<lambda>y. y \<noteq> x) xs)
   \<and> distinct (uniq xs) \<and> set (uniq xs) = set xs
   \<and> (inj_on np (set (from_args args)) \<longrightarrow> distinct (searchPaths (paths np args this)))"
proof -
  have "distinct (map np (uniq (from_args args)))" if "inj_on np (set (from_args args))"
    using that by (simp add: distinct_map uniq_distinct uniq_set)
  then show ?thesis
    by (simp add: paths_def from_args_def uniq_Cons uniq_distinct uniq_set) (simp add: uniq_def)
qed

theorem paths_dedup_then_normalize_witness:
  "inj_on normalize_posix (set (from_args [Single ''/a/../b'', Nested [''/c/'', ''/a/../b'']]))
   \<and> searchPaths (paths normalize_posix [Single ''/a/../b'', Nested [''/c/'', ''/a/../b'']] (create ''/''))
       = [''/b'', ''/c/'']
   \<and> distinct [''/b'', ''/c/'']"
proof -
  let ?args = "[Single ''/a/../b'', Nested [''/c/'', ''/a/../b'']]"
  have n: "normalize_posix ''/a/../b'' = ''/b''" "normalize_posix ''/c/'' = ''/c/''"
    by (simp_all add: normalize_posix_def Let_def)
  have f: "from_args ?args = [''/a/../b'', ''/c/'', ''/a/../b'']"
    by (simp add: from_args_def)
  have h: "inj_on normalize_posix (set (from_args ?args))"
    by (auto simp: inj_on_def f n)
  from paths_dedup_then_normalize [of normalize_posix ?args "create ''/''"] h
  have "searchPaths (paths normalize_posix ?args (create ''/'')) = map normalize_posix (uniq (from_args ?args))"
    and "distinct (searchPaths (paths normalize_posix ?args (create ''/'')))"
    by blast+
  then show ?thesis using h
    by (simp add: f n uniq_def uniq_step_def)
qed
text \<open>
  C8 as stated fails: duplicates are removed before normalization, so two different
  strings that normalize to the same path both stay.
\<close>

theorem paths_keeps_normalized_duplicates:
  "''/foo/bar'' \<noteq> ''/foo/bar/baz/..''
   \<and> searchPaths (paths normalize_posix [Single ''/foo/bar'', Single ''/foo/bar/baz/..''] (create ''/''))
       = [''/foo/bar'', ''/foo/bar'']
   \<and> \<not> distinct (searchPaths
         (paths normalize_posix [Single ''/foo/bar'', Single ''/foo/bar/baz/..''] (create ''/'')))"
  by (simp add: paths_def from_args_def uniq_def uniq_step_def normalize_posix_def Let_def)

section \<open>Properties of the extension filter\<close>

lemma cleanExtension_dot: "cleanExtension (CHR ''.'' # e) = e"
  by (simp add: cleanExtension_def)

lemma cleanExtension_no_dot: "\<not> (\<exists>r. e = CHR ''.'' # r) \<Longrightarrow> cleanExtension e = e"
  by (cases e) (simp_all add: cleanExtension_def)

text \<open>
  C10, as amended.  \<open>cleanExtension\<close> strips one leading dot.  For an extension
  \<open>e\<close> that does not itself start with a dot, \<open>ext('.' + e)\<close> and \<open>ext(e)\<close> add
  the same filter.  The filter \<open>ext\<close> adds (the last one after the call) accepts a
  file iff its path extension is among the cleaned arguments.
\<close>

theorem ext_strips_one_leading_dot:
  "cleanExtension (CHR ''.'' # e) = e
   \<and> (\<not> (\<exists>r. e = CHR ''.'' # r) \<longrightarrow> ext [Single (CHR ''.'' # e)] this = ext [Single e] this)
   \<and> filters (ext args this) = filters this @ [last (filters (ext args this))]
   \<and> last (filters (ext args this)) f
       = (getPathExtension f \<in> set (map cleanExtension (from_args args)))"
proof (intro conjI impI)
  show "cleanExtension (CHR ''.'' # e) = e" by (rule cleanExtension_dot)
next
  assume "\<not> (\<exists>r. e = CHR ''.'' # r)"
  then have "cleanExtension e = e" by (rule cleanExtension_no_dot)
  then show "ext [Single (CHR ''.'' # e)] this = ext [Single e] this"
    by (simp add: ext_def from_args_def cleanExtension_dot)
next
  show "filters (ext args this) = filters this @ [last (filters (ext args this))]"
    by (simp add: ext_def addFilter_def Let_def)
next
  show "last (filters (ext args this)) f
       = (getPathExtension f \<in> set (map cleanExtension (from_args args)))"
    by (simp add: ext_def addFilter_def Let_def)
qed

theorem ext_strips_one_leading_dot_witness:
  "\<not> (\<exists>r. ''txt'' = CHR ''.'' # r)
   \<and> ext [Single ''.txt''] (create ''/r'') = ext [Single ''txt''] (create ''/r'')
   \<and> last (filters (ext [Single ''.txt'', Nested [''log'']] (create ''/r''))) a_txt
   \<and> \<not> last (filters (ext [Single ''.txt''] (create ''/r''))) b_log"
proof -
  have h: "\<not> (\<exists>r. ''txt'' = CHR ''.'' # r)" by simp
  note t1 = ext_strips_one_leading_dot [of "''txt''" "create ''/r''" "[Single ''.txt'', Nested [''log'']]" a_txt]
  note t2 = ext_strips_one_leading_dot [of "''txt''" "create ''/r''" "[Single ''.txt'']" b_log]
  from t1 h have a: "ext [Single ''.txt''] (create ''/r'') = ext [Single ''txt''] (create ''/r'')"
    by blast
  from t1 have b: "last (filters (ext [Single ''.txt'', Nested [''log'']] (create ''/r''))) a_txt
       = (getPathExtension a_txt \<in> set (map cleanExtension (from_args [Single ''.txt'', Nested [''log'']])))"
    by blast
  from t2 have c: "last (filters (ext [Single ''.txt''] (create ''/r''))) b_log
       = (getPathExtension b_log \<in> set (map cleanExtension (from_args [Single ''.txt''])))"
    by blast
  have b': "last (filters (ext [Single ''.txt'', Nested [''log'']] (create ''/r''))) a_txt"
    unfolding b by (simp add: from_args_def cleanExtension_def a_txt_def)
  have c': "\<not> last (filters (ext [Single ''.txt''] (create ''/r''))) b_log"
    unfolding c by (simp add: from_args_def cleanExtension_def b_log_def)
  from h a b' c' show ?thesis by blast
qed

text \<open>
  C10 as stated fails when \<open>e\<close> starts with a dot: only one dot is stripped, so
  \<open>ext('..txt')\<close> looks for the extension \<open>.txt\<close> and rejects \<open>a.txt\<close>, which
  \<open>ext('.txt')\<close> accepts.
\<close>

theorem ext_of_dotted_extension_differs:
  "getPathExtension a_txt = ''txt''
   \<and> last (filters (ext [Single ''.txt''] (create ''/r''))) a_txt
   \<and> \<not> last (filters (ext [Single (CHR ''.'' # ''.txt'')] (create ''/r''))) a_txt
   \<and> ext [Single (CHR ''.'' # ''.txt'')] (create ''/r'') \<noteq> ext [Single ''.txt''] (create ''/r'')"
proof -
  have a: "last (filters (ext [Single ''.txt''] (create ''/r''))) a_txt"
    by (simp add: ext_def addFilter_def from_args_def cleanExtension_def a_txt_def)
  have b: "\<not> last (filters (ext [Single (CHR ''.'' # ''.txt'')] (create ''/r''))) a_txt"
    by (simp add: ext_def addFilter_def from_args_def cleanExtension_def a_txt_def)
  from a b have "ext [Single (CHR ''.'' # ''.txt'')] (create ''/r'') \<noteq> ext [Single ''.txt''] (create ''/r'')"
    by metis
  with a b show ?thesis by (simp add: a_txt_def)
qed

section \<open>Properties of the sync flag\<close>

lemma appended_refl: "appended this w w"
  by (simp add: appended_def)

lemma appended_trans:
  "appended this w w1 \<Longrightarrow> appended this w1 w2 \<Longrightarrow> appended this w w2"
  by (auto simp: appended_def)

lemma appended_sync_cong:
  "sync this = sync this' \<Longrightarrow> appended this w w' = appended this' w w'"
  by (simp add: appended_def)

lemma search_appended:
  assumes "search this root d w = (r, w')"
  shows "appended this w w'"
proof -
  from walk_grows(1) [OF assms] obtain L where
    l: "listed w' = listed w @ L" "\<forall>l\<in>set L. l = getFiles this (listedDir l)"
    unfolding grows_def by blast
  have "list_all isSyncListing L" if "sync this"
    unfolding list_all_iff
  proof
    fix l assume "l \<in> set L"
    with l(2) have "l = getFiles this (listedDir l)" by blast
    with that have "l = GetFilesSync (listedDir l)" by (simp add: getFiles_def)
    then show "isSyncListing l" by (metis isSyncListing.simps(1))
  qed
  with l(1) show ?thesis unfolding appended_def by blast
qed

lemma searchSync_sticky:
  assumes "searchSync fs p s = (r, this', w')"
  shows "this' = (fst s)\<lparr>sync := True\<rparr>" and "appended this' (snd s) w'"
proof -
  let ?t = "(fst s)\<lparr>sync := True\<rparr>"
  have "this' = ?t \<and> appended this' (snd s) w'"
  proof (cases "fs p")
    case (Inl e)
    from assms [unfolded searchSync_no_root [of fs p e s, OF Inl]] show ?thesis
      by (auto simp: appended_def)
  next
    case rt: (Inr root)
    obtain r1 w1 where
      s1: "search ?t root root ((snd s)\<lparr>trackedPaths := []\<rparr>) = (r1, w1)"
      by (cases "search ?t root root ((snd s)\<lparr>trackedPaths := []\<rparr>)")
    note u = assms [unfolded searchSync_unfold [of fs p root s r1 w1, OF rt s1]]
    from u have t: "this' = ?t"
      by (cases r1; cases "directoriesOnly (fst s)") simp_all
    from u have "listed w' = listed w1"
      by (cases r1; cases "directoriesOnly (fst s)") auto
    moreover from search_appended [OF s1] have "appended ?t (snd s) w1"
      by (simp add: appended_def)
    ultimately have "appended this' (snd s) w'"
      unfolding t by (simp add: appended_def)
    with t show ?thesis by simp
  qed
  then show "this' = ?t" and "appended this' (snd s) w'"
    by blast+
qed

lemma map_searchSync_sticky:
  "map_searchSync fs dirs s = (r, this', w') \<Longrightarrow>
     (dirs \<noteq> [] \<or> sync (fst s) \<longrightarrow> sync this') \<and> appended (fst s\<lparr>sync := True\<rparr>) (snd s) w'"
proof (induction dirs arbitrary: s r this' w')
  case Nil
  then show ?case by (auto simp: appended_refl)
next
  case (Cons d dirs)
  obtain r1 t1 w1 where s1: "searchSync fs d s = (r1, t1, w1)"
    by (cases "searchSync fs d s") auto
  note k = searchSync_sticky [OF s1]
  show ?case
  proof (cases r1)
    case (Inl e)
    with Cons.prems s1 have "this' = t1" "w' = w1" by simp_all
    with k show ?thesis by simp
  next
    case (Inr found)
    obtain r2 t2 w2 where s2: "map_searchSync fs dirs (t1, w1) = (r2, t2, w2)"
      by (cases "map_searchSync fs dirs (t1, w1)") auto
    from Cons.prems s1 s2 Inr have e: "this' = t2" "w' = w2"
      by (cases r2; simp)+
    from Cons.IH [OF s2] k(1) have "sync t2" "appended (t1\<lparr>sync := True\<rparr>) w1 w2"
      by simp_all
    moreover have "t1\<lparr>sync := True\<rparr> = fst s\<lparr>sync := True\<rparr>" using k(1) by simp
    ultimately show ?thesis
      using e k(2) k(1) by (auto intro: appended_trans)
  qed
qed


lemma getSearchPaths_initFilters:
  "getSearchPaths rp (initFilters this) = getSearchPaths rp this"
  by (simp add: getSearchPaths_def initFilters_def)

lemma findSync_sticky:
  assumes "findSync rp fs s = (r, this', w')"
  shows "getSearchPaths rp (fst s) \<noteq> [] \<or> sync (fst s) \<longrightarrow> sync this'"
    and "appended ((fst s)\<lparr>sync := True\<rparr>) (snd s) w'"
proof -
  let ?t = "initFilters (fst s)"
  obtain r1 t1 w1 where
    m: "map_searchSync fs (getSearchPaths rp ?t) (?t, snd s) = (r1, t1, w1)"
    by (cases "map_searchSync fs (getSearchPaths rp ?t) (?t, snd s)") auto
  from assms m have e: "this' = t1 \<and> w' = w1"
    by (cases r1; cases "reduce_flatten (projr r1)")
       (auto simp: findSync_def Let_def split: sum.splits)
  from map_searchSync_sticky [OF m] e show
    "getSearchPaths rp (fst s) \<noteq> [] \<or> sync (fst s) \<longrightarrow> sync this'"
    by (simp add: getSearchPaths_initFilters) (simp add: initFilters_def)
  from map_searchSync_sticky [OF m] e show "appended ((fst s)\<lparr>sync := True\<rparr>) (snd s) w'"
    by (simp add: appended_def initFilters_def)
qed

lemma searchAsync_appended:
  assumes "searchAsync walks fs p this w = (pd, w')"
  shows "appended this w w'"
proof (cases "fs p")
  case (Inl e)
  with assms have "w' = w" by (simp add: searchAsync_def)
  then show ?thesis by (simp add: appended_refl)
next
  case rt: (Inr root)
  show ?thesis
  proof (cases "sync this \<or> shouldFilterDirectory this root root")
    case True
    obtain r1 w1 where
      s1: "search this root root (w\<lparr>trackedPaths := []\<rparr>) = (r1, w1)"
      by (cases "search this root root (w\<lparr>trackedPaths := []\<rparr>)")
    from assms True s1 rt have "w' = w1"
      by (cases r1) (auto simp: searchAsync_def Let_def)
    with search_appended [OF s1] show ?thesis by (simp add: appended_def)
  next
    case False
    with assms rt have "w' = w"
      by (auto simp: searchAsync_def Let_def split: sum.splits prod.splits if_splits)
    then show ?thesis by (simp add: appended_refl)
  qed
qed

lemma searchAsync_sync_throws:
  assumes "sync this"
  shows "\<exists>e. fst (searchAsync walks fs p this w) = Throws e"
proof (cases "fs p")
  case (Inl e)
  then show ?thesis by (simp add: searchAsync_def)
next
  case rt: (Inr root)
  obtain r1 w1 where
    s1: "search this root root (w\<lparr>trackedPaths := []\<rparr>) = (r1, w1)"
    by (cases "search this root root (w\<lparr>trackedPaths := []\<rparr>)")
  with assms rt show ?thesis
    by (cases r1) (simp_all add: searchAsync_def Let_def)
qed

lemma start_searches_appended:
  "start_searches walks fs this dirs w = (ps, w') \<Longrightarrow> appended this w w'"
proof (induction dirs arbitrary: w ps w')
  case Nil
  then show ?case by (simp add: appended_refl)
next
  case (Cons d dirs)
  obtain pd w1 where s1: "searchAsync walks fs d this w = (pd, w1)"
    by (cases "searchAsync walks fs d this w")
  note a1 = searchAsync_appended [OF s1]
  show ?case
  proof (cases pd)
    case (Throws e)
    with Cons.prems s1 have "w' = w1" by simp
    with a1 show ?thesis by simp
  next
    case (Settles r evs)
    obtain ps2 w2 where s2: "start_searches walks fs this dirs w1 = (ps2, w2)"
      by (cases "start_searches walks fs this dirs w1")
    with Cons.prems s1 Settles have "w' = w2" by simp
    with a1 Cons.IH [OF s2] show ?thesis by (auto intro: appended_trans)
  qed
qed

lemma find_state:
  "snd (snd (find rp walks fs order s))
     = (initFilters (fst s),
        snd (start_searches walks fs (initFilters (fst s))
               (getSearchPaths rp (initFilters (fst s))) (snd s)))"
  by (simp add: find_def Let_def split: prod.splits option.splits sum.splits)

lemma exec_sticky:
  assumes "sync (fst s)"
  shows "sync (fst (exec rp np fs s c))" and "appended (fst s) (snd s) (snd (exec rp np fs s c))"
proof -
  have "sync (fst (exec rp np fs s c)) \<and> appended (fst s) (snd s) (snd (exec rp np fs s c))"
  proof (cases c)
    case FindSync
    obtain r t w where f: "findSync rp fs s = (r, t, w)"
      by (cases "findSync rp fs s") auto
    from findSync_sticky [OF f] assms f FindSync show ?thesis
      by (simp add: appended_def)
  next
    case (Find walks order)
    obtain ps w where st: "start_searches walks fs (initFilters (fst s))
               (getSearchPaths rp (initFilters (fst s))) (snd s) = (ps, w)"
      by (cases "start_searches walks fs (initFilters (fst s))
               (getSearchPaths rp (initFilters (fst s))) (snd s)")
    from start_searches_appended [OF st] assms Find st show ?thesis
      by (simp add: find_state appended_def initFilters_def)
  qed (use assms in \<open>simp_all add: appended_refl addFilter_def paths_def ext_def not_def
        ignoreHiddenFiles_def ignoreHiddenDirectories_def directory_def depth_def Let_def\<close>)
  then show "sync (fst (exec rp np fs s c))"
    and "appended (fst s) (snd s) (snd (exec rp np fs s c))"
    by simp_all
qed

lemma run_sticky:
  "sync (fst s) \<Longrightarrow>
     sync (fst (run rp np fs calls s)) \<and> appended (fst s) (snd s) (snd (run rp np fs calls s))"
proof (induction calls arbitrary: s)
  case Nil
  then show ?case by (simp add: run_def appended_refl)
next
  case (Cons c calls)
  let ?s1 = "exec rp np fs s c"
  note e = exec_sticky [OF Cons.prems, of rp np fs c]
  from Cons.IH [OF e(1)] have
    "sync (fst (run rp np fs calls ?s1))"
    "appended (fst ?s1) (snd ?s1) (snd (run rp np fs calls ?s1))"
    by simp_all
  moreover have "appended (fst ?s1) (snd ?s1) (snd (run rp np fs calls ?s1))
                   = appended (fst s) (snd ?s1) (snd (run rp np fs calls ?s1))"
    using e(1) Cons.prems by (simp add: appended_def)
  moreover have "run rp np fs (c # calls) s = run rp np fs calls ?s1"
    by (simp add: run_def)
  ultimately show ?case
    using e(2) by (auto intro: appended_trans)
qed

lemmas find_defs = find_def searchAsync_def findSync_def reduce_flatten_def toFilename_def
  getSearchPaths_def copy_def run_def paths_def from_args_def uniq_def uniq_step_def
  normalize_posix_def walkInOrder_def

lemma example_deep_paths: "getSearchPaths keepPaths deep = [''/r'']"
  by (simp add: deep_def find_defs builder_defs isDefined_def)

lemma example_findSync: "findSync keepPaths exampleFs (deep, newWalk)
  = (Inr [''/r/a.txt'', ''/r/b.log'', ''/r/.c.txt'', ''/r/sub/d.txt'', ''/r/sub/.h/e.txt''],
     (initFilters deep)\<lparr>sync := True\<rparr>,
     \<lparr>trackedPaths = [sub, h_dir],
      listed = [GetFilesSync r_dir, GetFilesSync sub, GetFilesSync h_dir],
      evaluated = [e_txt, d_txt, e_txt, a_txt, b_log, c_txt, d_txt, e_txt]\<rparr>)"
  by (simp add: deep_def find_defs walk_defs example_defs builder_defs)

lemma example_find_after_findSync: "find keepPaths noWalks exampleFs [0]
     ((initFilters deep)\<lparr>sync := True\<rparr>,
     \<lparr>trackedPaths = [sub, h_dir],
      listed = [GetFilesSync r_dir, GetFilesSync sub, GetFilesSync h_dir],
      evaluated = [e_txt, d_txt, e_txt, a_txt, b_log, c_txt, d_txt, e_txt]\<rparr>)
  = (Inl (TypeError ''pending.then is not a function''),
     [Error (TypeError ''pending.then is not a function''), End],
     (initFilters deep)\<lparr>sync := True\<rparr>,
     \<lparr>trackedPaths = [sub, h_dir],
      listed = [GetFilesSync r_dir, GetFilesSync sub, GetFilesSync h_dir,
                GetFilesSync r_dir, GetFilesSync sub, GetFilesSync h_dir],
      evaluated = [e_txt, d_txt, e_txt, a_txt, b_log, c_txt, d_txt, e_txt,
                   e_txt, d_txt, e_txt, a_txt, b_log, c_txt, d_txt, e_txt]\<rparr>)"
  by (simp add: deep_def find_defs walk_defs example_defs builder_defs)


lemma example_run: "run keepPaths normalize_posix exampleFs [FindSync, Not, Find noWalks [0]] (deep, newWalk)
  = ((initFilters (not (initFilters deep\<lparr>sync := True\<rparr>))),
     \<lparr>trackedPaths = [sub, h_dir],
      listed = [GetFilesSync r_dir, GetFilesSync sub, GetFilesSync h_dir,
                GetFilesSync r_dir, GetFilesSync sub, GetFilesSync h_dir],
      evaluated = [e_txt, d_txt, e_txt, a_txt, b_log, c_txt, d_txt, e_txt,
                   e_txt, d_txt, a_txt, b_log, c_txt]\<rparr>)"
  by (simp add: deep_def find_defs walk_defs example_defs builder_defs keepPaths_def)

text \<open>
  C9, as amended.  When the instance has at least one search path to walk,
  \<open>findSync\<close> leaves the \<open>sync\<close> flag set, no later method call clears it, and
  every listing made from the \<open>findSync\<close> on, by whatever later search, is a
  synchronous one.  With the flag set \<open>search\<close> chooses \<open>getFilesSync\<close>, and
  \<open>searchAsync\<close> runs the walk on arrays and then raises (no walk is awaited).
\<close>

theorem sync_flag_is_sticky:
  "(getSearchPaths rp (fst s) \<noteq> [] \<longrightarrow>
      sync (fst (run rp np fs (FindSync # calls) s))
    \<and> list_all isSyncListing
        (drop (length (listed (snd s))) (listed (snd (run rp np fs (FindSync # calls) s)))))
   \<and> (sync this \<longrightarrow> getFiles this d = GetFilesSync d
        \<and> (\<exists>e. fst (searchAsync walks fs p this w) = Throws e))"
proof (intro conjI impI)
  assume ne: "getSearchPaths rp (fst s) \<noteq> []"
  obtain r t w1 where f: "findSync rp fs s = (r, t, w1)"
    by (cases "findSync rp fs s") auto
  from findSync_sticky [OF f] ne have st: "sync t"
    and a1: "appended ((fst s)\<lparr>sync := True\<rparr>) (snd s) w1"
    by simp_all
  have r: "run rp np fs (FindSync # calls) s = run rp np fs calls (t, w1)"
    by (simp add: run_def f)
  from run_sticky [of "(t, w1)" rp np fs calls] st have
    s2: "sync (fst (run rp np fs calls (t, w1)))"
    and a2: "appended t w1 (snd (run rp np fs calls (t, w1)))"
    by simp_all
  show "sync (fst (run rp np fs (FindSync # calls) s))"
    using s2 r by simp
  from a1 obtain L1 where l1: "listed w1 = listed (snd s) @ L1" "list_all isSyncListing L1"
    by (auto simp: appended_def)
  from a2 st obtain L2 where
    l2: "listed (snd (run rp np fs calls (t, w1))) = listed w1 @ L2" "list_all isSyncListing L2"
    by (auto simp: appended_def)
  show "list_all isSyncListing
        (drop (length (listed (snd s))) (listed (snd (run rp np fs (FindSync # calls) s))))"
    using l1 l2 r by simp
next
  assume "sync this"
  then show "getFiles this d = GetFilesSync d" by (simp add: getFiles_def)
next
  assume "sync this"
  then show "\<exists>e. fst (searchAsync walks fs p this w) = Throws e"
    by (rule searchAsync_sync_throws)
qed
theorem sync_flag_is_sticky_witness:
  "getSearchPaths keepPaths (fst (deep, newWalk)) = [''/r'']
   \<and> sync (fst (run keepPaths normalize_posix exampleFs [FindSync, Not, Find noWalks [0]]
                  (deep, newWalk)))
   \<and> listed (snd (run keepPaths normalize_posix exampleFs [FindSync, Not, Find noWalks [0]]
                  (deep, newWalk)))
       = [GetFilesSync r_dir, GetFilesSync sub, GetFilesSync h_dir,
          GetFilesSync r_dir, GetFilesSync sub, GetFilesSync h_dir]
   \<and> sync (initFilters deep\<lparr>sync := True\<rparr>)
   \<and> getFiles (initFilters deep\<lparr>sync := True\<rparr>) r_dir = GetFilesSync r_dir
   \<and> fst (searchAsync noWalks exampleFs ''/r'' (initFilters deep\<lparr>sync := True\<rparr>) newWalk)
       = Throws (TypeError ''pending.then is not a function'')"
proof -
  let ?calls = "[Not, Find noWalks [0]]"
  let ?t = "initFilters deep\<lparr>sync := True\<rparr>"
  note t = sync_flag_is_sticky [of keepPaths "(deep, newWalk)" normalize_posix exampleFs ?calls
             ?t r_dir noWalks "''/r''" newWalk]
  have h1: "getSearchPaths keepPaths (fst (deep, newWalk)) \<noteq> []"
    using example_deep_paths by simp
  have h2: "sync ?t" by simp
  from t h1 have a: "sync (fst (run keepPaths normalize_posix exampleFs (FindSync # ?calls)
                  (deep, newWalk)))"
    by blast
  from t h2 have b: "getFiles ?t r_dir = GetFilesSync r_dir"
    by blast
  have c: "fst (searchAsync noWalks exampleFs ''/r'' ?t newWalk)
       = Throws (TypeError ''pending.then is not a function'')"
    by (simp add: deep_def find_defs walk_defs example_defs builder_defs)
  from a b c h2 example_deep_paths example_run show ?thesis by simp
qed

lemma example_findSync_no_roots: "findSync keepPaths exampleFs (noPaths, newWalk)
   = (Inl (TypeError ''reduce of an empty array with no initial value''),
      initFilters noPaths, newWalk)"
  by (simp add: noPaths_def find_defs walk_defs example_defs builder_defs isDefined_def)

lemma example_find_async: "find keepPaths (walkInOrder (initFilters (paths normalize_posix [Single ''/r''] (initFilters noPaths))) exampleFs)
          exampleFs [0] (paths normalize_posix [Single ''/r''] (initFilters noPaths), newWalk)
   = (Inr [''/r/a.txt'', ''/r/b.log'', ''/r/.c.txt''],
      [Match ''/r/a.txt'', Match ''/r/b.log'', Match ''/r/.c.txt'', End],
      initFilters (paths normalize_posix [Single ''/r''] (initFilters noPaths)), newWalk)"
  by (simp add: noPaths_def find_defs walk_defs example_defs builder_defs isDefined_def)

text \<open>
  C9 as stated fails for an instance without search paths: \<open>findSync\<close> raises before
  it calls \<open>searchSync\<close>, the flag stays unset, and a later \<open>find\<close> walks
  asynchronously.
\<close>

theorem findSync_without_roots_leaves_sync_unset:
  "getSearchPaths keepPaths noPaths = []
   \<and> fst (findSync keepPaths exampleFs (noPaths, newWalk))
       = Inl (TypeError ''reduce of an empty array with no initial value'')
   \<and> \<not> sync (fst (snd (findSync keepPaths exampleFs (noPaths, newWalk))))
   \<and> \<not> sync (fst (run keepPaths normalize_posix exampleFs [FindSync, Paths [Single ''/r'']]
                     (noPaths, newWalk)))
   \<and> fst (find keepPaths
            (walkInOrder (initFilters (paths normalize_posix [Single ''/r''] (initFilters noPaths)))
               exampleFs)
            exampleFs [0]
            (run keepPaths normalize_posix exampleFs [FindSync, Paths [Single ''/r'']]
               (noPaths, newWalk)))
       = Inr [''/r/a.txt'', ''/r/b.log'', ''/r/.c.txt'']"
proof -
  have p: "getSearchPaths keepPaths noPaths = []"
    by (simp add: noPaths_def find_defs builder_defs isDefined_def)
  have r: "run keepPaths normalize_posix exampleFs [FindSync, Paths [Single ''/r'']] (noPaths, newWalk)
             = (paths normalize_posix [Single ''/r''] (initFilters noPaths), newWalk)"
    by (simp add: run_def example_findSync_no_roots)
  have s: "\<not> sync (paths normalize_posix [Single ''/r''] (initFilters noPaths))"
    "\<not> sync (initFilters noPaths)"
    by (simp_all add: noPaths_def paths_def builder_defs)
  show ?thesis
    using p s by (simp add: r example_findSync_no_roots example_find_async)
qed
section \<open>Notifications of the asynchronous search\<close>

text \<open>
  When \<open>find\<close> resolves, its result is the names of the per-root results concatenated
  in root order, whatever the order in which the walks settled.
\<close>

lemma reduce_flatten_concat: "reduce_flatten xss = Inr ys \<Longrightarrow> ys = concat xss"
  by (cases xss) (auto simp: reduce_flatten_def foldl_flatten)

lemma find_result_in_root_order:
  assumes "fst (find reducePaths walks fs order s) = Inr names"
  shows "names = map toFilename (concat (resolved (fst
           (start_searches walks fs (initFilters (fst s))
              (getSearchPaths reducePaths (initFilters (fst s))) (snd s)))))"
proof -
  obtain ps w where st: "start_searches walks fs (initFilters (fst s))
              (getSearchPaths reducePaths (initFilters (fst s))) (snd s) = (ps, w)"
    by (cases "start_searches walks fs (initFilters (fst s))
              (getSearchPaths reducePaths (initFilters (fst s))) (snd s)")
  from assms st obtain files where r: "reduce_flatten (resolved ps) = Inr files"
    and n: "names = map toFilename files"
    by (auto simp: find_def Let_def split: option.splits prod.splits sum.splits)
  from r have "files = concat (resolved ps)"
    by (rule reduce_flatten_concat)
  with n show ?thesis
    unfolding st by simp
qed

text \<open>
  C4, at a failing input.  Roots \<open>/r\<close> and \<open>/missing\<close>, in this order, with
  \<open>depth(0)\<close>: the walk of \<open>/r\<close> is started, then the mapper raises on \<open>/missing\<close>,
  whose depth cannot be read.  \<open>find\<close> rejects with that error and emits \<open>error\<close>,
  then \<open>end\<close>; the walk of \<open>/r\<close> resolves afterwards, and its \<open>match\<close>
  notifications follow the \<open>end\<close>.  With the roots the other way round the walk of
  \<open>/r\<close> is never started and \<open>end\<close> is last.
\<close>

theorem match_after_end_when_another_root_fails:
  "getSearchPaths keepPaths twoRoots = [''/r'', ''/missing'']
   \<and> exampleFs ''/missing'' = Inl (StatError ''ENOENT'')
   \<and> walkInOrder (initFilters twoRoots) exampleFs ''/r'' = Inr ([a_txt, b_log, c_txt], [])
   \<and> fst (start_searches (walkInOrder (initFilters twoRoots) exampleFs) exampleFs
            (initFilters twoRoots) [''/r'', ''/missing''] newWalk)
       = [Settles (Inr [a_txt, b_log, c_txt])
            [Match ''/r/a.txt'', Match ''/r/b.log'', Match ''/r/.c.txt''],
          Throws (StatError ''ENOENT'')]
   \<and> fst (find keepPaths (walkInOrder (initFilters twoRoots) exampleFs) exampleFs [0]
            (twoRoots, newWalk))
       = Inl (StatError ''ENOENT'')
   \<and> fst (snd (find keepPaths (walkInOrder (initFilters twoRoots) exampleFs) exampleFs [0]
            (twoRoots, newWalk)))
       = [Error (StatError ''ENOENT''), End,
          Match ''/r/a.txt'', Match ''/r/b.log'', Match ''/r/.c.txt'']
   \<and> getSearchPaths keepPaths missingFirst = [''/missing'', ''/r'']
   \<and> fst (start_searches (walkInOrder (initFilters missingFirst) exampleFs) exampleFs
            (initFilters missingFirst) [''/missing'', ''/r''] newWalk)
       = [Throws (StatError ''ENOENT'')]
   \<and> fst (snd (find keepPaths (walkInOrder (initFilters missingFirst) exampleFs) exampleFs [0, 1]
            (missingFirst, newWalk)))
       = [Error (StatError ''ENOENT''), End]"
  by (simp add: twoRoots_def missingFirst_def find_defs walk_defs example_defs builder_defs
        isDefined_def)

text \<open>
  C6, at failing inputs.  In directories-only mode \<open>find\<close> returns the matching
  directory and emits no \<open>match\<close> at all.  With two roots of which the second
  resolves first, the result is in root order and the \<open>match\<close> notifications are in
  completion order.
\<close>

theorem no_match_events_in_directories_only_mode:
  "walkInOrder (initFilters dirsDepthOne) exampleFs ''/r''
       = Inr ([a_txt, b_log, c_txt, d_txt], [sub])
   \<and> find keepPaths (walkInOrder (initFilters dirsDepthOne) exampleFs) exampleFs [0]
            (dirsDepthOne, newWalk)
       = (Inr [''/r/sub''], [End], initFilters dirsDepthOne, newWalk)
   \<and> getSearchPaths keepPaths nestedRoots = [''/r/sub'', ''/r'']
   \<and> fst (find keepPaths (walkInOrder (initFilters nestedRoots) exampleFs) exampleFs [1, 0]
            (nestedRoots, newWalk))
       = Inr [''/r/sub/d.txt'', ''/r/a.txt'', ''/r/b.log'', ''/r/.c.txt'']
   \<and> fst (snd (find keepPaths (walkInOrder (initFilters nestedRoots) exampleFs) exampleFs [1, 0]
            (nestedRoots, newWalk)))
       = [Match ''/r/a.txt'', Match ''/r/b.log'', Match ''/r/.c.txt'', Match ''/r/sub/d.txt'', End]"
  by (simp add: dirsDepthOne_def nestedRoots_def find_defs walk_defs example_defs builder_defs
        isDefined_def)

section \<open>The roots that are walked\<close>

text \<open>
  Which roots \<open>find\<close> and \<open>findSync\<close> walk: all search paths when \<open>maxDepth\<close> is
  set, and what \<open>reducePaths\<close> makes of them when it is not.  With \<open>maxDepth\<close> set,
  nested roots are walked one by one and the entries below both appear once per root.
\<close>

lemma getSearchPaths_depth_set:
  "maxDepth this = Some m \<Longrightarrow> getSearchPaths reducePaths this = searchPaths this"
  by (simp add: getSearchPaths_def isDefined_def copy_def)

lemma getSearchPaths_depth_unset:
  "maxDepth this = None \<Longrightarrow> getSearchPaths reducePaths this = reducePaths (searchPaths this)"
  by (simp add: getSearchPaths_def isDefined_def copy_def)

lemma example_nested_roots_repeat:
  "fst (findSync reducePaths exampleFs
          (paths normalize_posix [Single ''/r/sub'', Single ''/r''] (depth 5 (create ''/'')), newWalk))
     = Inr [''/r/sub/d.txt'', ''/r/sub/.h/e.txt'',
            ''/r/a.txt'', ''/r/b.log'', ''/r/.c.txt'', ''/r/sub/d.txt'', ''/r/sub/.h/e.txt'']"
  by (simp add: find_defs walk_defs example_defs builder_defs)

end
